theory Spec2Isabelle
  imports Complex_Main
begin

section \<open>The document store of exercise 15 (database.ts)\<close>

text \<open>
  The store keeps one record per line of a text file. A line is a marker character
  followed by the JSON text of the record. This theory embeds the class \<open>Database\<close>
  of \<open>src/exercises/exercise-15/database.ts\<close>: the helpers \<open>intersect2\<close>,
  \<open>intersect\<close>, \<open>union\<close>, and the methods \<open>_load\<close>, \<open>find\<close>, \<open>_find\<close>,
  \<open>insert\<close> and \<open>delete\<close>.

  Conventions of the embedding.
  \<^item> A JavaScript string is a \<open>string\<close>; only code units below 256 are represented.
  \<^item> A JavaScript number is a \<open>real\<close>. The code only compares numbers and hands them
    to \<open>JSON.stringify\<close>, so a finite double is the real it denotes, and \<open>Infinity\<close>,
    which \<open>JSON.parse\<close> returns for a number text beyond the range of a double, is a
    real above every finite double (the constant \<open>Infinity\<close> below). \<open>NaN\<close> is not
    represented; JSON text cannot denote it.
  \<^item> The platform functions \<open>JSON.parse\<close>, \<open>JSON.stringify\<close> and
    \<open>String.prototype.localeCompare\<close> are parameters (\<open>P\<close>, \<open>S\<close>, \<open>lc\<close>) of the
    functions that call them. \<open>P s = None\<close> stands for \<open>JSON.parse(s)\<close> throwing a
    \<open>SyntaxError\<close>; \<open>P s = Some d\<close> gives the own properties \<open>d\<close> of the object parsed,
    in the order of \<open>Object.keys\<close>. The store is typed to hold objects (\<open>Row<T>\<close>); a
    payload that parses to another kind of value is not represented.
  \<^item> A query and an operator object have exactly one of the shapes of their union type.
  \<^item> The file named by \<open>this.filename\<close> is a \<open>string option\<close>; \<open>None\<close> is a file that
    does not exist.
  \<^item> An exception is the \<open>Inl\<close> value of a sum type.
\<close>

subsection \<open>Values, records, rows\<close>

datatype val =
    JUndefined
  | JNull
  | JBool bool
  | JNum real
  | JStr string
  | JArr "val list"
  | JObj "(string \<times> val) list"

type_synonym fields = "(string \<times> val) list"

text \<open>
  A record object as \<open>_load\<close> creates it. \<open>ref\<close> is the index of the line the object
  was parsed from; it stands for the identity of the JavaScript object, which \<open>Set\<close>
  membership tests. Two objects of one load have the same \<open>ref\<close> only when they are the
  same object.
\<close>

datatype obj = Obj (ref: nat) (fields: fields)

text \<open>\<open>interface Row<T> { exists: boolean; data: T }\<close>\<close>

datatype row = Row (exists: bool) (data: obj)

datatype error = IOError | SyntaxError

text \<open>
  \<open>record[key]\<close>: the value of an own property, \<open>undefined\<close> when there is none. The
  properties a record inherits from \<open>Object.prototype\<close> (\<open>constructor\<close>, \<open>toString\<close> and
  the like) are not represented: a key is taken not to be one of their names.
\<close>

definition get :: "fields \<Rightarrow> string \<Rightarrow> val" where
  "get fs key = (case map_of fs key of None \<Rightarrow> JUndefined | Some v \<Rightarrow> v)"

subsection \<open>String primitives of the platform\<close>

text \<open>The line feed character.\<close>

definition LF :: char where
  "LF = CHR 0x0A"

text \<open>
  White space and line terminators, as \<open>trim\<close> and the regular expression class
  \<open>\s\<close> read them, among the code units below 256: TAB, LF, VT, FF, CR, SPACE, NBSP.
\<close>

definition is_space :: "char \<Rightarrow> bool" where
  "is_space c \<longleftrightarrow> c \<in> set [CHR 0x09, CHR 0x0A, CHR 0x0B, CHR 0x0C, CHR 0x0D, CHR 0x20, CHR 0xA0]"

text \<open>\<open>String.prototype.trim\<close>\<close>

definition trim :: "string \<Rightarrow> string" where
  "trim s = rev (dropWhile is_space (rev (dropWhile is_space s)))"

text \<open>
  \<open>s.split(sep)\<close> for a separator of one character: the pieces between the
  separators; the empty string gives one empty piece.
\<close>

fun split_str :: "char \<Rightarrow> string \<Rightarrow> string list" where
  "split_str sep [] = [[]]"
| "split_str sep (c # cs) =
     (if c = sep then [] # split_str sep cs
      else (case split_str sep cs of
              [] \<Rightarrow> [[c]]
            | w # ws \<Rightarrow> (c # w) # ws))"

text \<open>
  \<open>s.split(/\s+/)\<close>: the pieces between the maximal runs of white space. A string
  that begins or ends with white space has an empty first or last piece.
\<close>

function split_ws :: "string \<Rightarrow> string list" where
  "split_ws [] = [[]]"
| "split_ws (c # cs) =
     (if is_space c then [] # split_ws (dropWhile is_space cs)
      else (case split_ws cs of
              [] \<Rightarrow> [[c]]
            | w # ws \<Rightarrow> (c # w) # ws))"
  by pat_completeness auto
termination
  by (relation "measure length") (auto simp: length_dropWhile_le less_Suc_eq_le)

text \<open>\<open>r.startsWith("E")\<close>\<close>

definition startsWith :: "string \<Rightarrow> char \<Rightarrow> bool" where
  "startsWith r c = (case r of [] \<Rightarrow> False | x # _ \<Rightarrow> x = c)"

text \<open>\<open>r.slice(1)\<close>\<close>

definition slice1 :: "string \<Rightarrow> string" where
  "slice1 r = drop 1 r"

text \<open>
  \<open>String.prototype.toLowerCase\<close> on code units below 256: the letters A to Z and
  the Latin-1 capitals (0xC0 to 0xDE without the multiplication sign 0xD7) move up by 32.
\<close>

definition lower_char :: "char \<Rightarrow> char" where
  "lower_char c =
     (let n = (of_char c :: nat)
      in if (65 \<le> n \<and> n \<le> 90) \<or> (192 \<le> n \<and> n \<le> 222 \<and> n \<noteq> 215)
         then char_of (n + 32) else c)"

definition toLowerCase :: "string \<Rightarrow> string" where
  "toLowerCase s = map lower_char s"

subsection \<open>Queries and options\<close>

text \<open>
  The operator object of one field: \<open>{$in: vs}\<close>, \<open>{$eq: v}\<close>, \<open>{$lt: n}\<close>,
  \<open>{$gt: n}\<close>.
\<close>

datatype op = In "val list" | Eq val | Lt real | Gt real

text \<open>
  \<open>type Query<T> = SimpleQuery<T> | CombinedQuery<T> | TextQuery\<close>. A field query
  lists its keys in the order of \<open>Object.keys\<close>.
\<close>

datatype query =
    Text string
  | And "query list"
  | Or "query list"
  | Field "(string \<times> op) list"

text \<open>
  \<open>interface Options<T>\<close>. \<open>sort\<close> lists the keys in the order of \<open>Object.keys\<close>,
  each with its direction (\<open>None\<close> for a key whose value is \<open>undefined\<close>);
  \<open>projection\<close> lists the keys of the projection object.
\<close>

datatype options =
  Options (projection: "string list option") (sort_keys: "(string \<times> int option) list option")

subsection \<open>Set helpers\<close>

text \<open>\<open>Array.from(new Set(xs))\<close>: the first occurrence of every element, in order.\<close>

fun from_set :: "'a list \<Rightarrow> 'a list" where
  "from_set [] = []"
| "from_set (x # xs) = x # from_set (filter (\<lambda>y. y \<noteq> x) xs)"

definition intersect2 :: "'a list \<Rightarrow> 'a list \<Rightarrow> 'a list" where
  "intersect2 a b = filter (\<lambda>e. e \<in> set a) b"

definition intersect :: "'a list list \<Rightarrow> 'a list" where
  "intersect arrs =
     (case arrs of
        [] \<Rightarrow> []
      | first # rest \<Rightarrow> foldl (\<lambda>p n. intersect2 p n) first rest)"

definition union_arrs :: "'a list list \<Rightarrow> 'a list" where
  "union_arrs arrs = from_set (foldl (\<lambda>p n. p @ n) [] arrs)"

subsection \<open>The record log\<close>

text \<open>
  The callback of \<open>map\<close> in \<open>_load\<close>, applied to the lines in order, with the index of
  the line. The first payload that does not parse ends the load.
\<close>

fun load_rows :: "(string \<Rightarrow> fields option) \<Rightarrow> nat \<Rightarrow> string list \<Rightarrow> error + row list" where
  "load_rows P i [] = Inr []"
| "load_rows P i (r # rs) =
     (case P (slice1 r) of
        None \<Rightarrow> Inl SyntaxError
      | Some d \<Rightarrow>
          (case load_rows P (Suc i) rs of
             Inl e \<Rightarrow> Inl e
           | Inr rows \<Rightarrow> Inr (Row (startsWith r (CHR ''E'')) (Obj i d) # rows)))"

definition Database_load :: "(string \<Rightarrow> fields option) \<Rightarrow> string option \<Rightarrow> error + row list" where
  "Database_load P file =
     (case file of
        None \<Rightarrow> Inl IOError
      | Some contents \<Rightarrow> load_rows P 0 (split_str LF (trim contents)))"

subsection \<open>The matcher\<close>

text \<open>
  \<open>===\<close> and the \<open>SameValueZero\<close> of \<open>includes\<close>, between a value of the query and a
  value of a record. An array or object of the query is never the same object as one
  that \<open>JSON.parse\<close> created during this call.
\<close>

fun strict_eq :: "val \<Rightarrow> val \<Rightarrow> bool" where
  "strict_eq JUndefined JUndefined = True"
| "strict_eq JNull JNull = True"
| "strict_eq (JBool a) (JBool b) = (a = b)"
| "strict_eq (JNum a) (JNum b) = (a = b)"
| "strict_eq (JStr a) (JStr b) = (a = b)"
| "strict_eq _ _ = False"

text \<open>The callback of \<open>keys.every\<close> in \<open>_find\<close>, for one key of a field query.\<close>

definition match_op :: "op \<Rightarrow> val \<Rightarrow> bool" where
  "match_op queryObject v =
     (case queryObject of
        In vs \<Rightarrow> list_ex (\<lambda>x. strict_eq x v) vs
      | Eq x \<Rightarrow> strict_eq x v
      | Lt n \<Rightarrow> (case v of JNum x \<Rightarrow> n > x | _ \<Rightarrow> False)
      | Gt n \<Rightarrow> (case v of JNum x \<Rightarrow> n < x | _ \<Rightarrow> False))"

text \<open>The callback of \<open>fullTextSearchFieldNames.some\<close> in \<open>_find\<close>.\<close>

definition match_text :: "string \<Rightarrow> obj \<Rightarrow> string \<Rightarrow> bool" where
  "match_text text record key =
     (case get (fields record) key of
        JStr v \<Rightarrow> toLowerCase text \<in> set (map toLowerCase (split_ws v))
      | _ \<Rightarrow> False)"

fun Database_find_rec :: "string list \<Rightarrow> obj list \<Rightarrow> query \<Rightarrow> obj list" where
  "Database_find_rec ftf records (Text text) =
     filter (\<lambda>record. list_ex (match_text text record) ftf) records"
| "Database_find_rec ftf records (And qs) =
     intersect (map (\<lambda>q. Database_find_rec ftf records q) qs)"
| "Database_find_rec ftf records (Or qs) =
     union_arrs (map (\<lambda>q. Database_find_rec ftf records q) qs)"
| "Database_find_rec ftf records (Field kvs) =
     filter (\<lambda>record. list_all (\<lambda>(key, queryObject). match_op queryObject (get (fields record) key)) kvs)
       records"

subsection \<open>The result shaper\<close>

text \<open>The callback of \<open>keys.map\<close> in the comparator of \<open>find\<close>.\<close>

definition compare_key :: "(string \<Rightarrow> string \<Rightarrow> int) \<Rightarrow> obj \<Rightarrow> obj \<Rightarrow> string \<times> int option \<Rightarrow> int" where
  "compare_key lc a b kd =
     (let order = (case snd kd of None \<Rightarrow> 0 | Some d \<Rightarrow> d);
          aValue = get (fields a) (fst kd);
          bValue = get (fields b) (fst kd)
      in case (aValue, bValue) of
           (JStr x, JStr y) \<Rightarrow> lc x y * order
         | (JNum x, JNum y) \<Rightarrow> (if x < y then - 1 else 1) * order
         | _ \<Rightarrow> 0)"

text \<open>The comparator passed to \<open>result.sort\<close>: the first comparison that is not 0.\<close>

definition comparator :: "(string \<Rightarrow> string \<Rightarrow> int) \<Rightarrow> (string \<times> int option) list \<Rightarrow> obj \<Rightarrow> obj \<Rightarrow> int" where
  "comparator lc keys a b =
     (case List.find (\<lambda>n. n \<noteq> 0) (map (compare_key lc a b) keys) of
        None \<Rightarrow> 0
      | Some n \<Rightarrow> n)"

text \<open>
  \<open>Array.prototype.sort\<close> with a comparator, as a stable insertion sort: every element
  is placed before the first element of the sorted prefix it compares less than. The
  language fixes the result only for a consistent comparator. For a comparator that is
  not consistent, the result for a list of two elements is the one node gives (the second
  element moves to the front exactly when it compares below the first); for a longer
  list an engine may give another order, and nothing below relies on the order then.
\<close>

fun insert_sorted :: "('a \<Rightarrow> 'a \<Rightarrow> int) \<Rightarrow> 'a \<Rightarrow> 'a list \<Rightarrow> 'a list" where
  "insert_sorted cmp x [] = [x]"
| "insert_sorted cmp x (y # ys) =
     (if cmp x y < 0 then x # y # ys else y # insert_sorted cmp x ys)"

definition Array_sort :: "('a \<Rightarrow> 'a \<Rightarrow> int) \<Rightarrow> 'a list \<Rightarrow> 'a list" where
  "Array_sort cmp xs = foldl (\<lambda>acc x. insert_sorted cmp x acc) [] xs"

text \<open>
  The callback of \<open>result.map\<close> for a projection. The new object keeps the \<open>ref\<close> of the
  record it was built from, so a result stays traceable to its row.
\<close>

definition project :: "string list \<Rightarrow> obj \<Rightarrow> obj" where
  "project keys record = Obj (ref record) (map (\<lambda>n. (n, get (fields record) n)) keys)"

subsection \<open>The store\<close>

definition existingRecords :: "row list \<Rightarrow> obj list" where
  "existingRecords rows = map data (filter exists rows)"

definition Database_find ::
  "(string \<Rightarrow> fields option) \<Rightarrow> (string \<Rightarrow> string \<Rightarrow> int) \<Rightarrow> string list \<Rightarrow>
   string option \<Rightarrow> query \<Rightarrow> options option \<Rightarrow> error + obj list" where
  "Database_find P lc ftf file q opts =
     (case Database_load P file of
        Inl e \<Rightarrow> Inl e
      | Inr rows \<Rightarrow>
          (let result = Database_find_rec ftf (existingRecords rows) q;
               result = (case Option.bind opts sort_keys of
                           None \<Rightarrow> result
                         | Some keys \<Rightarrow> Array_sort (comparator lc keys) result)
           in case Option.bind opts projection of
                None \<Rightarrow> Inr result
              | Some keys \<Rightarrow> Inr (map (project keys) result)))"

text \<open>\<open>appendFile\<close> creates the file when it does not exist.\<close>

definition Database_insert :: "(fields \<Rightarrow> string) \<Rightarrow> string option \<Rightarrow> fields \<Rightarrow> string option" where
  "Database_insert S file record =
     Some ((case file of None \<Rightarrow> [] | Some contents \<Rightarrow> contents)
           @ [CHR ''E''] @ S record @ [LF])"

text \<open>The two callbacks of \<open>map\<close> in \<open>delete\<close>.\<close>

definition mark_deleted :: "obj list \<Rightarrow> row \<Rightarrow> row" where
  "mark_deleted deletedRecords r =
     Row (if exists r then \<not> (data r \<in> set deletedRecords) else False) (data r)"

definition row_line :: "(fields \<Rightarrow> string) \<Rightarrow> row \<Rightarrow> string" where
  "row_line S r = [if exists r then CHR ''E'' else CHR ''D''] @ S (fields (data r)) @ [LF]"

definition Database_delete ::
  "(string \<Rightarrow> fields option) \<Rightarrow> (fields \<Rightarrow> string) \<Rightarrow> string list \<Rightarrow>
   string option \<Rightarrow> query \<Rightarrow> error + string option" where
  "Database_delete P S ftf file q =
     (case Database_load P file of
        Inl e \<Rightarrow> Inl e
      | Inr rows \<Rightarrow>
          (let deletedRecords = Database_find_rec ftf (existingRecords rows) q;
               newRows = map (mark_deleted deletedRecords) rows;
               newContents = concat (map (row_line S) newRows)
           in Inr (Some newContents)))"

subsection \<open>Vocabulary of the statements\<close>

text \<open>
  What the statements below ask of the platform's JSON functions for a record \<open>d\<close>:
  \<open>JSON.stringify(d)\<close> is one line of text that is not empty and does not end in white
  space, and \<open>JSON.parse\<close> reads \<open>d\<close> back from it.
\<close>

definition round_trips :: "(string \<Rightarrow> fields option) \<Rightarrow> (fields \<Rightarrow> string) \<Rightarrow> fields \<Rightarrow> bool" where
  "round_trips P S d \<longleftrightarrow>
     P (S d) = Some d \<and> LF \<notin> set (S d) \<and> S d \<noteq> [] \<and> \<not> is_space (last (S d))"

text \<open>
  What holds of the platform's JSON functions for every record \<open>d\<close> that \<open>JSON.parse\<close>
  returns: \<open>JSON.stringify(d)\<close> is one line of text that is not empty and does not end in
  white space, and \<open>JSON.parse\<close> reads a record from it, which may be another record
  than \<open>d\<close>.
\<close>

definition reads_back :: "(string \<Rightarrow> fields option) \<Rightarrow> (fields \<Rightarrow> string) \<Rightarrow> fields \<Rightarrow> bool" where
  "reads_back P S d \<longleftrightarrow>
     P (S d) \<noteq> None \<and> LF \<notin> set (S d) \<and> S d \<noteq> [] \<and> \<not> is_space (last (S d))"

text \<open>The line that \<open>delete\<close> writes for a row, without its line feed.\<close>

definition line_of :: "(fields \<Rightarrow> string) \<Rightarrow> row \<Rightarrow> string" where
  "line_of S r = (if exists r then CHR ''E'' else CHR ''D'') # S (fields (data r))"

text \<open>
  \<open>t\<close> is a whole token of \<open>v\<close>: it occurs in \<open>v\<close>, holds no white space, and is bounded
  on each side by white space or by an end of \<open>v\<close>.
\<close>

definition whole_token :: "string \<Rightarrow> string \<Rightarrow> bool" where
  "whole_token t v \<longleftrightarrow>
     (\<exists>pre post. v = pre @ t @ post
        \<and> (\<forall>c \<in> set t. \<not> is_space c)
        \<and> (pre = [] \<or> is_space (last pre))
        \<and> (post = [] \<or> is_space (hd post)))"

text \<open>
  A caller's sequence of \<open>insert\<close> and \<open>delete\<close> calls, run one after the other on the
  file; the first call that fails ends the run.
\<close>

datatype operation = Insert fields | Delete query

fun Database_apply ::
  "(string \<Rightarrow> fields option) \<Rightarrow> (fields \<Rightarrow> string) \<Rightarrow> string list \<Rightarrow>
   string option \<Rightarrow> operation \<Rightarrow> error + string option" where
  "Database_apply P S ftf file (Insert record) = Inr (Database_insert S file record)"
| "Database_apply P S ftf file (Delete q) = Database_delete P S ftf file q"

fun Database_run ::
  "(string \<Rightarrow> fields option) \<Rightarrow> (fields \<Rightarrow> string) \<Rightarrow> string list \<Rightarrow>
   string option \<Rightarrow> operation list \<Rightarrow> error + string option" where
  "Database_run P S ftf file [] = Inr file"
| "Database_run P S ftf file (x # xs) =
     (case Database_apply P S ftf file x of
        Inl e \<Rightarrow> Inl e
      | Inr file' \<Rightarrow> Database_run P S ftf file' xs)"

subsection \<open>Sample texts for the closed examples\<close>

text \<open>
  Five JSON texts with the records \<open>JSON.parse\<close> reads from them. The closed examples
  below instantiate the parameters \<open>P\<close> and \<open>S\<close> with these two functions, and only
  evaluate them on the five texts, on the five records, and on texts that are not JSON
  at all (the empty text, some words without quotes).
\<close>

definition sample_texts :: "(string \<times> fields) list" where
  \<open>sample_texts =
     [(''{}'', []),
      (''{"a":1}'', [(''a'', JNum 1)]),
      (''{"a":1,"b":1}'', [(''a'', JNum 1), (''b'', JNum 1)]),
      (''{"a":1,"b":2}'', [(''a'', JNum 1), (''b'', JNum 2)]),
      (''{"bio":"fast and curious"}'', [(''bio'', JStr ''fast and curious'')])]\<close>

definition JSON_parse_sample :: "string \<Rightarrow> fields option" where
  "JSON_parse_sample s = map_of sample_texts s"

definition JSON_stringify_sample :: "fields \<Rightarrow> string" where
  "JSON_stringify_sample d =
     (case List.find (\<lambda>(s, d'). d' = d) sample_texts of
        None \<Rightarrow> ''{}''
      | Some (s, d') \<Rightarrow> s)"

text \<open>
  The value \<open>Infinity\<close>, which \<open>JSON.parse\<close> returns for the text \<open>1e400\<close> and
  \<open>JSON.stringify\<close> writes as \<open>null\<close>, as a real above every finite double, and three
  JSON texts with it: what \<open>JSON.parse\<close> reads from each text, and what
  \<open>JSON.stringify\<close> writes for each of the three records.
\<close>

definition Infinity :: real where
  "Infinity = 10 ^ 400"

definition JSON_parse_overflow :: "string \<Rightarrow> fields option" where
  \<open>JSON_parse_overflow s =
     map_of [(''{"a":1}'', [(''a'', JNum 1)]),
             (''{"a":null}'', [(''a'', JNull)]),
             (''{"a":1e400}'', [(''a'', JNum Infinity)])] s\<close>

definition JSON_stringify_overflow :: "fields \<Rightarrow> string" where
  \<open>JSON_stringify_overflow d =
     (if d = [(''a'', JNum 1)] then ''{"a":1}''
      else if d = [(''a'', JNull)] then ''{"a":null}''
      else if d = [(''a'', JNum Infinity)] then ''{"a":null}''
      else ''{}'')\<close>

text \<open>A collation for the examples that compare no strings.\<close>

definition no_collation :: "string \<Rightarrow> string \<Rightarrow> int" where
  "no_collation x y = 0"

section \<open>Lemmas\<close>

subsection \<open>Set helpers and the matcher\<close>

lemma set_from_set: "set (from_set xs) = set xs"
  by (induction xs rule: from_set.induct) auto

lemma distinct_from_set: "distinct (from_set xs)"
  by (induction xs rule: from_set.induct) (auto simp: set_from_set)

lemma from_set_distinct_id: "distinct xs \<Longrightarrow> from_set xs = xs"
proof (induction xs)
  case Nil
  then show ?case by simp
next
  case (Cons x xs)
  then have "filter (\<lambda>y. y \<noteq> x) xs = xs"
    by (auto simp: filter_id_conv)
  with Cons show ?case by simp
qed

lemma from_set_append:
  "from_set (xs @ ys) = from_set xs @ from_set (filter (\<lambda>y. y \<notin> set xs) ys)"
proof (induction xs arbitrary: ys rule: from_set.induct)
  case 1
  then show ?case by simp
next
  case (2 x xs)
  have "filter (\<lambda>y. y \<notin> set (filter (\<lambda>y. y \<noteq> x) xs)) (filter (\<lambda>y. y \<noteq> x) ys)
        = filter (\<lambda>y. y \<noteq> x \<and> y \<notin> set xs) ys"
    by (auto intro: filter_cong)
  with 2[of "filter (\<lambda>y. y \<noteq> x) ys"] show ?case by simp
qed

lemma set_intersect2: "set (intersect2 a b) = set a \<inter> set b"
  by (auto simp: intersect2_def)

lemma distinct_intersect2: "distinct b \<Longrightarrow> distinct (intersect2 a b)"
  by (simp add: intersect2_def)

lemma set_foldl_intersect2:
  "set (foldl (\<lambda>p n. intersect2 p n) first rest) = set first \<inter> (\<Inter>n \<in> set rest. set n)"
  by (induction rest arbitrary: first) (auto simp: set_intersect2)

lemma set_intersect_subset: "a \<in> set arrs \<Longrightarrow> set (intersect arrs) \<subseteq> set a"
  by (auto simp: intersect_def set_foldl_intersect2 split: list.splits)

lemma distinct_foldl_intersect2:
  "distinct first \<Longrightarrow> \<forall>n \<in> set rest. distinct n \<Longrightarrow>
   distinct (foldl (\<lambda>p n. intersect2 p n) first rest)"
  by (induction rest arbitrary: first) (auto simp: distinct_intersect2)

lemma distinct_intersect: "\<forall>n \<in> set arrs. distinct n \<Longrightarrow> distinct (intersect arrs)"
  by (auto simp: intersect_def distinct_foldl_intersect2 split: list.splits)

lemma foldl_append_concat: "foldl (\<lambda>p n. p @ n) acc arrs = acc @ concat arrs"
  by (induction arrs arbitrary: acc) auto

lemma set_union_arrs: "set (union_arrs arrs) = (\<Union>a \<in> set arrs. set a)"
  by (simp add: union_arrs_def set_from_set foldl_append_concat)

lemma find_rec_subset: "set (Database_find_rec ftf records q) \<subseteq> set records"
proof (induction q)
  case (Text x)
  then show ?case by auto
next
  case (And qs)
  show ?case
  proof (cases qs)
    case Nil
    then show ?thesis by (simp add: intersect_def)
  next
    case (Cons q' qs')
    have "set (Database_find_rec ftf records (And qs)) \<subseteq> set (Database_find_rec ftf records q')"
      using Cons by (auto intro!: set_intersect_subset)
    moreover have "set (Database_find_rec ftf records q') \<subseteq> set records"
      using And Cons by simp
    ultimately show ?thesis by blast
  qed
next
  case (Or qs)
  then show ?case by (auto simp: set_union_arrs)
next
  case (Field kvs)
  then show ?case by auto
qed

lemma find_rec_distinct: "distinct records \<Longrightarrow> distinct (Database_find_rec ftf records q)"
proof (induction q)
  case (And qs)
  then show ?case by (auto intro!: distinct_intersect)
next
  case (Or qs)
  then show ?case by (simp add: union_arrs_def distinct_from_set)
qed auto

subsection \<open>The record log\<close>

lemma split_str_no_sep: "sep \<notin> set l \<Longrightarrow> split_str sep l = [l]"
  by (induction l) auto

lemma split_str_append:
  "sep \<notin> set l \<Longrightarrow> split_str sep (l @ sep # rest) = l # split_str sep rest"
  by (induction l) auto

lemma load_rows_length: "load_rows P i ls = Inr rows \<Longrightarrow> length rows = length ls"
  by (induction ls arbitrary: i rows) (auto split: option.splits sum.splits)

lemma upt_Suc_shift: "[i..<Suc (i + n)] = i # [Suc i..<Suc (i + n)]"
  using upt_conv_Cons[of i "Suc (i + n)"] by simp

lemma load_rows_refs:
  "load_rows P i ls = Inr rows \<Longrightarrow> map (ref \<circ> data) rows = [i..<i + length ls]"
proof (induction ls arbitrary: i rows)
  case Nil
  then show ?case by simp
next
  case (Cons l ls)
  then show ?case
    by (auto split: option.splits sum.splits simp: upt_Suc_shift simp del: upt_Suc)
qed

lemma split_str_nonempty: "split_str sep s \<noteq> []"
  by (cases s) (auto split: list.splits)

lemma load_refs:
  assumes "Database_load P file = Inr rows"
  shows "map (ref \<circ> data) rows = [0..<length rows]" and "rows \<noteq> []"
proof -
  from assms obtain contents where c: "file = Some contents"
    and l: "load_rows P 0 (split_str LF (trim contents)) = Inr rows"
    by (auto simp: Database_load_def split: option.splits)
  from load_rows_refs[OF l] load_rows_length[OF l]
  show "map (ref \<circ> data) rows = [0..<length rows]" by simp
  from load_rows_length[OF l] split_str_nonempty[of LF "trim contents"]
  show "rows \<noteq> []" by auto
qed

lemma distinct_data:
  assumes "map (ref \<circ> data) rows = [0..<length rows]"
  shows "distinct (map data rows)"
proof -
  have "distinct (map (ref \<circ> data) rows)" using assms by simp
  then have "distinct rows" and "inj_on (ref \<circ> data) (set rows)"
    by (simp_all add: distinct_map)
  then have "distinct rows" and "inj_on data (set rows)"
    by (auto intro: inj_on_imageI2)
  then show ?thesis by (simp add: distinct_map)
qed

lemma distinct_existingRecords:
  assumes "map (ref \<circ> data) rows = [0..<length rows]"
  shows "distinct (existingRecords rows)"
proof -
  have "distinct (map data rows)" using assms by (rule distinct_data)
  then show ?thesis
    unfolding existingRecords_def by (simp add: distinct_map_filter)
qed

lemma row_line_line_of: "row_line S r = line_of S r @ [LF]"
  by (simp add: row_line_def line_of_def)

lemma round_trips_reads_back: "round_trips P S d \<Longrightarrow> reads_back P S d"
  by (simp add: round_trips_def reads_back_def)

lemma LF_notin_line_of: "reads_back P S (fields (data r)) \<Longrightarrow> LF \<notin> set (line_of S r)"
  by (auto simp: reads_back_def line_of_def LF_def)

lemma butlast_log:
  assumes "rows \<noteq> []" and "\<forall>r \<in> set rows. reads_back P S (fields (data r))"
  shows "split_str LF (butlast (concat (map (row_line S) rows))) = map (line_of S) rows"
  using assms
proof (induction rows rule: list_nonempty_induct)
  case (single r)
  then show ?case
    by (simp add: row_line_line_of split_str_no_sep LF_notin_line_of)
next
  case (cons r rows)
  have ne: "concat (map (row_line S) rows) \<noteq> []"
    using cons.hyps by (cases rows) (auto simp: row_line_def)
  have "butlast (concat (map (row_line S) (r # rows)))
        = line_of S r @ LF # butlast (concat (map (row_line S) rows))"
    using ne by (simp add: row_line_line_of butlast_append)
  moreover have "LF \<notin> set (line_of S r)"
    using cons.prems LF_notin_line_of[of P S r] by simp
  ultimately show ?case
    using cons by (simp add: split_str_append)
qed

lemma trim_log:
  assumes "rows \<noteq> []" and "\<forall>r \<in> set rows. reads_back P S (fields (data r))"
  shows "trim (concat (map (row_line S) rows)) = butlast (concat (map (row_line S) rows))"
proof -
  let ?c = "concat (map (row_line S) rows)"
  obtain r0 rs0 where rows0: "rows = r0 # rs0" using assms(1) by (cases rows) auto
  obtain rs1 r1 where rows1: "rows = rs1 @ [r1]" using assms(1) by (cases rows rule: rev_cases) auto
  have hd_ns: "\<not> is_space (hd ?c)" and ne: "?c \<noteq> []"
    unfolding rows0 by (auto simp: row_line_def is_space_def)
  have front: "dropWhile is_space ?c = ?c"
    using hd_ns ne by (cases ?c) auto
  have rt: "reads_back P S (fields (data r1))" using assms(2) rows1 by simp
  let ?f = "concat (map (row_line S) rs1) @ line_of S r1"
  have c: "?c = ?f @ [LF]" unfolding rows1 by (simp add: row_line_line_of)
  have lastf: "last ?f = last (S (fields (data r1)))" and fne: "?f \<noteq> []"
    using rt by (auto simp: line_of_def reads_back_def)
  have "\<not> is_space (last ?f)" using rt lastf by (simp add: reads_back_def)
  then have "dropWhile is_space (rev ?f) = rev ?f"
    using fne by (cases "rev ?f") (auto simp: last_rev hd_rev[symmetric])
  moreover have "is_space LF" by (simp add: is_space_def LF_def)
  ultimately have "dropWhile is_space (rev ?c) = rev ?f"
    unfolding c by simp
  then have "trim ?c = ?f" unfolding trim_def front by simp
  also have "\<dots> = butlast ?c" unfolding c by (simp add: butlast_append)
  finally show ?thesis .
qed

lemma load_rows_lines:
  assumes "\<forall>r \<in> set rows. round_trips P S (fields (data r))"
      and "map (ref \<circ> data) rows = [i..<i + length rows]"
  shows "load_rows P i (map (line_of S) rows) = Inr rows"
  using assms
proof (induction rows arbitrary: i)
  case Nil
  then show ?case by simp
next
  case (Cons r rows)
  from Cons.prems(2) have r: "ref (data r) = i"
    and rest: "map (ref \<circ> data) rows = [Suc i..<Suc i + length rows]"
    by (auto simp: upt_Suc_shift comp_def simp del: upt_Suc)
  from Cons.prems(1) have p: "P (S (fields (data r))) = Some (fields (data r))"
    by (simp add: round_trips_def)
  have ih: "load_rows P (Suc i) (map (line_of S) rows) = Inr rows"
    using Cons.IH[OF _ rest] Cons.prems(1) by simp
  have row: "Row (exists r) (Obj i (fields (data r))) = r"
    using r by (cases r, cases "data r") auto
  have sl: "slice1 (line_of S r) = S (fields (data r))"
    and st: "startsWith (line_of S r) (CHR ''E'') = exists r"
    by (simp_all add: line_of_def slice1_def startsWith_def)
  show ?case
    using p ih row by (simp add: sl st)
qed

lemma load_log:
  assumes "rows \<noteq> []" and "\<forall>r \<in> set rows. round_trips P S (fields (data r))"
      and "map (ref \<circ> data) rows = [0..<length rows]"
  shows "Database_load P (Some (concat (map (row_line S) rows))) = Inr rows"
proof -
  have rb: "\<forall>r \<in> set rows. reads_back P S (fields (data r))"
    using assms(2) by (simp add: round_trips_reads_back)
  have "split_str LF (trim (concat (map (row_line S) rows))) = map (line_of S) rows"
    using trim_log[OF assms(1) rb] butlast_log[OF assms(1) rb] by simp
  then show ?thesis
    using assms(2,3) by (simp add: Database_load_def load_rows_lines)
qed

lemmas sample_defs = JSON_parse_sample_def JSON_stringify_sample_def sample_texts_def

lemma load_rows_Inr_payloads:
  "load_rows P i ls = Inr rows \<Longrightarrow> \<forall>l \<in> set ls. P (slice1 l) \<noteq> None"
  by (induction ls arbitrary: i rows) (auto split: option.splits sum.splits)

lemma load_rows_Inl_payload:
  "load_rows P i ls = Inl e \<Longrightarrow> \<exists>l \<in> set ls. P (slice1 l) = None"
  by (induction ls arbitrary: i) (auto split: option.splits sum.splits)

lemma load_rows_fails:
  "(\<exists>e. load_rows P i ls = Inl e) \<longleftrightarrow> (\<exists>l \<in> set ls. P (slice1 l) = None)"
proof
  assume "\<exists>e. load_rows P i ls = Inl e"
  then show "\<exists>l \<in> set ls. P (slice1 l) = None"
    by (auto dest: load_rows_Inl_payload)
next
  assume bad: "\<exists>l \<in> set ls. P (slice1 l) = None"
  show "\<exists>e. load_rows P i ls = Inl e"
  proof (cases "load_rows P i ls")
    case (Inl e)
    then show ?thesis by blast
  next
    case (Inr rows)
    from load_rows_Inr_payloads[OF this] bad show ?thesis by blast
  qed
qed

lemma load_rows_error: "load_rows P i ls = Inl e \<Longrightarrow> e = SyntaxError"
  by (induction ls arbitrary: i) (auto split: option.splits sum.splits)

lemma load_rows_nth:
  "load_rows P i ls = Inr rows \<Longrightarrow> k < length ls \<Longrightarrow>
   rows ! k = Row (startsWith (ls ! k) (CHR ''E'')) (Obj (i + k) (the (P (slice1 (ls ! k)))))"
proof (induction ls arbitrary: i rows k)
  case Nil
  then show ?case by simp
next
  case (Cons l ls)
  then show ?case
    by (cases k) (auto split: option.splits sum.splits)
qed

lemma dropWhile_all: "\<forall>c \<in> set s. Q c \<Longrightarrow> dropWhile Q s = []"
  by (induction s) auto

lemma trim_spaces: "\<forall>c \<in> set s. is_space c \<Longrightarrow> trim s = []"
  by (simp add: trim_def dropWhile_all)

subsection \<open>The pieces of a split at white space\<close>

lemma split_ws_hd:
  "split_ws v \<noteq> [] \<and> hd (split_ws v) = takeWhile (\<lambda>c. \<not> is_space c) v"
  by (induction v rule: split_ws.induct) (auto split: list.splits)

lemma split_ws_Cons_char:
  "\<not> is_space c \<Longrightarrow> split_ws (c # cs) = (c # hd (split_ws cs)) # tl (split_ws cs)"
  using split_ws_hd[of cs] by (cases "split_ws cs") auto

lemma split_ws_unfold:
  "split_ws v = takeWhile (\<lambda>c. \<not> is_space c) v # tl (split_ws v)"
  using split_ws_hd[of v] by (cases "split_ws v") auto

lemma takeWhile_token:
  assumes "\<forall>c \<in> set t. \<not> is_space c" and "post = [] \<or> is_space (hd post)"
  shows "takeWhile (\<lambda>c. \<not> is_space c) (t @ post) = t"
proof -
  have "takeWhile (\<lambda>c. \<not> is_space c) post = []"
    using assms(2) by (cases post) auto
  then show ?thesis
    using assms(1) by (simp add: takeWhile_append2)
qed

lemma last_spaces:
  assumes "is_space c" shows "is_space (last (c # takeWhile is_space cs))"
proof -
  have "last (c # takeWhile is_space cs) \<in> set (c # takeWhile is_space cs)"
    by (rule last_in_set) simp
  then show ?thesis
    using assms by (auto dest: set_takeWhileD)
qed

lemma split_ws_tl_whole:
  "t \<in> set (tl (split_ws v)) \<Longrightarrow>
   \<exists>pre post. v = pre @ t @ post \<and> (\<forall>c \<in> set t. \<not> is_space c) \<and> pre \<noteq> []
      \<and> is_space (last pre) \<and> (post = [] \<or> is_space (hd post))"
proof (induction v rule: split_ws.induct)
  case 1
  then show ?case by simp
next
  case (2 c cs)
  show ?case
  proof (cases "is_space c")
    case True
    let ?d = "dropWhile is_space cs"
    let ?sp = "c # takeWhile is_space cs"
    have v: "c # cs = ?sp @ ?d" by simp
    from 2(3) True have "t \<in> set (split_ws ?d)" by simp
    then have "t = takeWhile (\<lambda>c. \<not> is_space c) ?d \<or> t \<in> set (tl (split_ws ?d))"
      using split_ws_unfold[of ?d] by (metis set_ConsD)
    then show ?thesis
    proof
      assume t: "t = takeWhile (\<lambda>c. \<not> is_space c) ?d"
      let ?post = "dropWhile (\<lambda>c. \<not> is_space c) ?d"
      have "c # cs = ?sp @ t @ ?post" unfolding t by simp
      moreover have "\<forall>c \<in> set t. \<not> is_space c"
        unfolding t by (auto dest: set_takeWhileD)
      moreover have "is_space (last ?sp)" using True by (rule last_spaces)
      moreover have "?post = [] \<or> is_space (hd ?post)"
        using hd_dropWhile[of "\<lambda>c. \<not> is_space c" ?d] by blast
      ultimately show ?thesis by blast
    next
      assume "t \<in> set (tl (split_ws ?d))"
      from 2(1)[OF True this] obtain pre post where
        p: "?d = pre @ t @ post" "\<forall>c \<in> set t. \<not> is_space c" "pre \<noteq> []"
           "is_space (last pre)" "post = [] \<or> is_space (hd post)"
        by blast
      have "c # cs = (?sp @ pre) @ t @ post" using v p(1) by simp
      moreover have "?sp @ pre \<noteq> []" by simp
      moreover have "is_space (last (?sp @ pre))" using p(3,4) by simp
      ultimately show ?thesis using p(2,5) by blast
    qed
  next
    case False
    from 2(3) False have "t \<in> set (tl (split_ws cs))"
      by (simp add: split_ws_Cons_char del: split_ws.simps)
    from 2(2)[OF False this] obtain pre post where
      p: "cs = pre @ t @ post" "\<forall>c \<in> set t. \<not> is_space c" "pre \<noteq> []"
         "is_space (last pre)" "post = [] \<or> is_space (hd post)"
      by blast
    have "c # cs = (c # pre) @ t @ post" using p(1) by simp
    moreover have "is_space (last (c # pre))" using p(3,4) by simp
    ultimately show ?thesis using p(2,5) by blast
  qed
qed

lemma split_ws_whole: "t \<in> set (split_ws v) \<Longrightarrow> whole_token t v"
proof -
  assume "t \<in> set (split_ws v)"
  then have "t = takeWhile (\<lambda>c. \<not> is_space c) v \<or> t \<in> set (tl (split_ws v))"
    using split_ws_unfold[of v] by (metis set_ConsD)
  then show ?thesis
  proof
    assume t: "t = takeWhile (\<lambda>c. \<not> is_space c) v"
    let ?post = "dropWhile (\<lambda>c. \<not> is_space c) v"
    have "v = [] @ t @ ?post" unfolding t by simp
    moreover have "\<forall>c \<in> set t. \<not> is_space c"
      unfolding t by (auto dest: set_takeWhileD)
    moreover have "?post = [] \<or> is_space (hd ?post)"
      using hd_dropWhile[of "\<lambda>c. \<not> is_space c" v] by blast
    ultimately show ?thesis unfolding whole_token_def by blast
  next
    assume "t \<in> set (tl (split_ws v))"
    from split_ws_tl_whole[OF this] show ?thesis
      unfolding whole_token_def by blast
  qed
qed

lemma last_dropWhile_some:
  assumes "\<exists>x \<in> set xs. \<not> Q x"
  shows "dropWhile Q xs \<noteq> [] \<and> last (dropWhile Q xs) = last xs"
proof -
  have ne: "dropWhile Q xs \<noteq> []" using assms by (simp add: dropWhile_eq_Nil_conv)
  have "last xs = last (takeWhile Q xs @ dropWhile Q xs)" by simp
  also have "\<dots> = last (dropWhile Q xs)" using ne by (rule last_appendR)
  finally show ?thesis using ne by simp
qed

lemma whole_split_ws_tl:
  "v = pre @ t @ post \<Longrightarrow> t \<noteq> [] \<Longrightarrow> \<forall>c \<in> set t. \<not> is_space c \<Longrightarrow> pre \<noteq> [] \<Longrightarrow>
   is_space (last pre) \<Longrightarrow> post = [] \<or> is_space (hd post) \<Longrightarrow>
   t \<in> set (tl (split_ws v))"
proof (induction v arbitrary: pre rule: split_ws.induct)
  case 1
  then show ?case by simp
next
  case (2 c cs)
  from 2(3,6) obtain pre0 where pre: "pre = c # pre0" and cs: "cs = pre0 @ t @ post"
    by (cases pre) auto
  show ?case
  proof (cases "is_space c")
    case True
    let ?d = "dropWhile is_space cs"
    have tl: "tl (split_ws (c # cs)) = split_ws ?d" using True by simp
    show ?thesis
    proof (cases "\<forall>x \<in> set pre0. is_space x")
      case allsp: True
      have "\<not> is_space (hd t)" using 2(4,5) by (cases t) auto
      then have "dropWhile is_space (t @ post) = t @ post"
        using 2(4) by (cases t) auto
      then have d: "?d = t @ post"
        unfolding cs using allsp by (simp add: dropWhile_append2)
      have "takeWhile (\<lambda>c. \<not> is_space c) ?d = t"
        unfolding d using 2(5,8) by (rule takeWhile_token)
      then have "t \<in> set (split_ws ?d)"
        using split_ws_unfold[of ?d] by (metis list.set_intros(1))
      then show ?thesis unfolding tl .
    next
      case somech: False
      then have ex: "\<exists>x \<in> set pre0. \<not> is_space x" by blast
      then have pre0: "pre0 \<noteq> []" by auto
      have d: "?d = dropWhile is_space pre0 @ t @ post"
        unfolding cs using ex by (auto simp: dropWhile_append1)
      have l: "dropWhile is_space pre0 \<noteq> []" "last (dropWhile is_space pre0) = last pre0"
        using last_dropWhile_some[OF ex] by simp_all
      have "is_space (last pre0)" using 2(7) pre pre0 by simp
      then have "is_space (last (dropWhile is_space pre0))" using l(2) by simp
      from 2(1)[OF True d 2(4) 2(5) l(1) this 2(8)]
      have "t \<in> set (tl (split_ws ?d))" .
      then have "t \<in> set (split_ws ?d)" by (rule list.set_sel(2)[rotated]) (simp add: split_ws_hd)
      then show ?thesis unfolding tl .
    qed
  next
    case False
    have pre0: "pre0 \<noteq> []" using 2(7) pre False by (cases pre0) auto
    have "is_space (last pre0)" using 2(7) pre pre0 by simp
    from 2(2)[OF False cs 2(4) 2(5) pre0 this 2(8)]
    have "t \<in> set (tl (split_ws cs))" .
    then show ?thesis using False by (simp add: split_ws_Cons_char del: split_ws.simps)
  qed
qed

lemma whole_split_ws:
  assumes "whole_token t v" and "t \<noteq> []"
  shows "t \<in> set (split_ws v)"
proof -
  from assms(1) obtain pre post where
    p: "v = pre @ t @ post" "\<forall>c \<in> set t. \<not> is_space c"
       "pre = [] \<or> is_space (last pre)" "post = [] \<or> is_space (hd post)"
    unfolding whole_token_def by blast
  show ?thesis
  proof (cases "pre = []")
    case True
    have "takeWhile (\<lambda>c. \<not> is_space c) (t @ post) = t"
      using p(2,4) by (rule takeWhile_token)
    then show ?thesis
      using split_ws_unfold[of v] p(1) True by (metis append_Nil list.set_intros(1))
  next
    case False
    with p(3) have "is_space (last pre)" by simp
    from whole_split_ws_tl[OF p(1) assms(2) p(2) False this p(4)]
    have "t \<in> set (tl (split_ws v))" .
    then show ?thesis by (rule list.set_sel(2)[rotated]) (simp add: split_ws_hd)
  qed
qed

lemma toLowerCase_Nil: "toLowerCase t = toLowerCase s \<Longrightarrow> s \<noteq> [] \<Longrightarrow> t \<noteq> []"
  by (auto simp: toLowerCase_def)

subsection \<open>Delete, insert and find on a written log\<close>

lemma mark_deleted_simps:
  "data (mark_deleted D r) = data r"
  "exists (mark_deleted D r) = (exists r \<and> data r \<notin> set D)"
  by (simp_all add: mark_deleted_def)

lemma delete_rewrites:
  assumes l: "Database_load P file = Inr rows"
      and rt: "\<forall>r \<in> set rows. round_trips P S (fields (data r))"
  shows "Database_delete P S ftf file q
           = Inr (Some (concat (map (row_line S)
               (map (mark_deleted (Database_find_rec ftf (existingRecords rows) q)) rows))))"
    and "Database_load P (Some (concat (map (row_line S)
               (map (mark_deleted (Database_find_rec ftf (existingRecords rows) q)) rows))))
           = Inr (map (mark_deleted (Database_find_rec ftf (existingRecords rows) q)) rows)"
proof -
  let ?D = "Database_find_rec ftf (existingRecords rows) q"
  let ?new = "map (mark_deleted ?D) rows"
  show "Database_delete P S ftf file q = Inr (Some (concat (map (row_line S) ?new)))"
    using l by (simp add: Database_delete_def)
  have ne: "?new \<noteq> []" using load_refs(2)[OF l] by simp
  have rt': "\<forall>r \<in> set ?new. round_trips P S (fields (data r))"
    using rt by (simp add: mark_deleted_simps)
  have refs: "map (ref \<circ> data) ?new = [0..<length ?new]"
    using load_refs(1)[OF l] by (simp add: comp_def mark_deleted_simps)
  show "Database_load P (Some (concat (map (row_line S) ?new))) = Inr ?new"
    using ne rt' refs by (rule load_log)
qed

lemma insert_appends:
  assumes rt: "\<forall>r \<in> set rows. round_trips P S (fields (data r))"
      and refs: "map (ref \<circ> data) rows = [0..<length rows]"
      and rtr: "round_trips P S r"
  shows "Database_load P (Database_insert S (Some (concat (map (row_line S) rows))) r)
           = Inr (rows @ [Row True (Obj (length rows) r)])"
proof -
  let ?new = "rows @ [Row True (Obj (length rows) r)]"
  have t: "Database_insert S (Some (concat (map (row_line S) rows))) r
           = Some (concat (map (row_line S) ?new))"
    by (simp add: Database_insert_def row_line_def)
  have "?new \<noteq> []" by simp
  moreover have "\<forall>x \<in> set ?new. round_trips P S (fields (data x))"
    using rt rtr by simp
  moreover have "map (ref \<circ> data) ?new = [0..<length ?new]"
    using refs by simp
  ultimately show ?thesis unfolding t by (rule load_log)
qed

lemma insert_absent:
  "Database_insert S None r = Database_insert S (Some []) r"
  by (simp add: Database_insert_def)

lemma set_insert_sorted: "set (insert_sorted cmp x ys) = insert x (set ys)"
  by (induction ys) auto

lemma set_foldl_insert_sorted:
  "set (foldl (\<lambda>acc x. insert_sorted cmp x acc) acc xs) = set acc \<union> set xs"
  by (induction xs arbitrary: acc) (auto simp: set_insert_sorted)

lemma set_Array_sort: "set (Array_sort cmp xs) = set xs"
  by (simp add: Array_sort_def set_foldl_insert_sorted)

lemma ref_project: "ref (project keys record) = ref record"
  by (simp add: project_def)

lemma find_refs:
  assumes "Database_load P file = Inr rows"
  shows "\<exists>res. Database_find P lc ftf file q opts = Inr res
           \<and> ref ` set res \<subseteq> ref ` set (existingRecords rows)"
proof -
  let ?m = "Database_find_rec ftf (existingRecords rows) q"
  let ?s = "case Option.bind opts sort_keys of None \<Rightarrow> ?m
            | Some keys \<Rightarrow> Array_sort (comparator lc keys) ?m"
  have s: "set ?s = set ?m"
    by (simp add: set_Array_sort split: option.splits)
  have sub: "ref ` set ?s \<subseteq> ref ` set (existingRecords rows)"
    unfolding s using find_rec_subset[of ftf "existingRecords rows" q] by blast
  show ?thesis
  proof (cases "Option.bind opts projection")
    case None
    then have "Database_find P lc ftf file q opts = Inr ?s"
      using assms by (simp add: Database_find_def Let_def)
    with sub show ?thesis by simp
  next
    case (Some keys)
    then have "Database_find P lc ftf file q opts = Inr (map (project keys) ?s)"
      using assms by (simp add: Database_find_def Let_def)
    moreover have "ref ` set (map (project keys) ?s) = ref ` set ?s"
      by (simp add: image_image ref_project)
    ultimately show ?thesis using sub by simp
  qed
qed

subsection \<open>Runs of operations\<close>

lemma insert_written:
  "Database_insert S (Some (concat (map (row_line S) rows))) r
     = Some (concat (map (row_line S) (rows @ [Row True (Obj (length rows) r)])))"
  by (simp add: Database_insert_def row_line_def)

lemma run_written:
  assumes "rows \<noteq> []"
      and "map (ref \<circ> data) rows = [0..<length rows]"
      and "\<forall>r \<in> set rows. round_trips P S (fields (data r))"
      and "\<forall>x. Insert x \<in> set ops \<longrightarrow> round_trips P S x"
  shows "\<exists>rows'. Database_run P S ftf (Some (concat (map (row_line S) rows))) ops
                    = Inr (Some (concat (map (row_line S) rows')))
           \<and> Database_load P (Some (concat (map (row_line S) rows'))) = Inr rows'
           \<and> length rows \<le> length rows'
           \<and> (\<forall>i < length rows. data (rows' ! i) = data (rows ! i)
                  \<and> (exists (rows' ! i) \<longrightarrow> exists (rows ! i)))"
  using assms
proof (induction ops arbitrary: rows)
  case Nil
  have "Database_load P (Some (concat (map (row_line S) rows))) = Inr rows"
    using Nil(1,3,2) by (rule load_log)
  then show ?case by auto
next
  case (Cons x ops)
  have l: "Database_load P (Some (concat (map (row_line S) rows))) = Inr rows"
    using Cons.prems(1,3,2) by (rule load_log)
  have ins: "\<forall>y. Insert y \<in> set ops \<longrightarrow> round_trips P S y"
    using Cons.prems(4) by simp
  obtain rows1 where
    step: "Database_apply P S ftf (Some (concat (map (row_line S) rows))) x
             = Inr (Some (concat (map (row_line S) rows1)))"
    and ne1: "rows1 \<noteq> []"
    and refs1: "map (ref \<circ> data) rows1 = [0..<length rows1]"
    and rt1: "\<forall>r \<in> set rows1. round_trips P S (fields (data r))"
    and len1: "length rows \<le> length rows1"
    and keep1: "\<forall>i < length rows. data (rows1 ! i) = data (rows ! i)
                  \<and> (exists (rows1 ! i) \<longrightarrow> exists (rows ! i))"
  proof (cases x)
    case (Insert r)
    let ?rows1 = "rows @ [Row True (Obj (length rows) r)]"
    have "round_trips P S r" using Cons.prems(4) Insert by simp
    then have "\<forall>y \<in> set ?rows1. round_trips P S (fields (data y))"
      using Cons.prems(3) by simp
    moreover have "map (ref \<circ> data) ?rows1 = [0..<length ?rows1]"
      using Cons.prems(2) by (simp add: comp_def)
    moreover have "\<forall>i < length rows. data (?rows1 ! i) = data (rows ! i)
                  \<and> (exists (?rows1 ! i) \<longrightarrow> exists (rows ! i))"
      by (simp add: nth_append)
    moreover have "Database_apply P S ftf (Some (concat (map (row_line S) rows))) x
             = Inr (Some (concat (map (row_line S) ?rows1)))"
      unfolding Insert by (simp add: insert_written)
    ultimately show ?thesis
      using that[of ?rows1] by simp
  next
    case (Delete q)
    let ?D = "Database_find_rec ftf (existingRecords rows) q"
    let ?rows1 = "map (mark_deleted ?D) rows"
    have "Database_apply P S ftf (Some (concat (map (row_line S) rows))) x
             = Inr (Some (concat (map (row_line S) ?rows1)))"
      unfolding Delete using delete_rewrites(1)[OF l Cons.prems(3)] by simp
    moreover have "?rows1 \<noteq> []" using Cons.prems(1) by simp
    moreover have "map (ref \<circ> data) ?rows1 = [0..<length ?rows1]"
      using Cons.prems(2) by (simp add: comp_def mark_deleted_simps)
    moreover have "\<forall>r \<in> set ?rows1. round_trips P S (fields (data r))"
      using Cons.prems(3) by (simp add: mark_deleted_simps)
    moreover have "\<forall>i < length rows. data (?rows1 ! i) = data (rows ! i)
                  \<and> (exists (?rows1 ! i) \<longrightarrow> exists (rows ! i))"
      by (simp add: mark_deleted_simps)
    ultimately show ?thesis
      using that[of ?rows1] by simp
  qed
  from Cons.IH[OF ne1 refs1 rt1 ins] obtain rows' where
    r: "Database_run P S ftf (Some (concat (map (row_line S) rows1))) ops
          = Inr (Some (concat (map (row_line S) rows')))"
    and l': "Database_load P (Some (concat (map (row_line S) rows'))) = Inr rows'"
    and len': "length rows1 \<le> length rows'"
    and keep': "\<forall>i < length rows1. data (rows' ! i) = data (rows1 ! i)
                  \<and> (exists (rows' ! i) \<longrightarrow> exists (rows1 ! i))"
    by blast
  have "Database_run P S ftf (Some (concat (map (row_line S) rows))) (x # ops)
          = Inr (Some (concat (map (row_line S) rows')))"
    using step r by simp
  moreover have "length rows \<le> length rows'" using len1 len' by simp
  moreover have "\<forall>i < length rows. data (rows' ! i) = data (rows ! i)
                  \<and> (exists (rows' ! i) \<longrightarrow> exists (rows ! i))"
    using keep1 keep' len1 by auto
  ultimately show ?case using l' by blast
qed

lemma run_after_delete:
  assumes l: "Database_load P file = Inr rows"
      and rt: "\<forall>r \<in> set rows. round_trips P S (fields (data r))"
      and ins: "\<forall>x. Insert x \<in> set ops \<longrightarrow> round_trips P S x"
  shows "\<exists>rows'. Database_run P S ftf file (Delete q # ops)
                    = Inr (Some (concat (map (row_line S) rows')))
           \<and> Database_load P (Some (concat (map (row_line S) rows'))) = Inr rows'
           \<and> length rows \<le> length rows'
           \<and> (\<forall>i < length rows. data (rows' ! i) = data (rows ! i)
                  \<and> (exists (rows' ! i) \<longrightarrow>
                       exists (rows ! i)
                       \<and> data (rows ! i) \<notin> set (Database_find_rec ftf (existingRecords rows) q)))"
proof -
  let ?D = "Database_find_rec ftf (existingRecords rows) q"
  let ?rows1 = "map (mark_deleted ?D) rows"
  have d: "Database_delete P S ftf file q = Inr (Some (concat (map (row_line S) ?rows1)))"
    using delete_rewrites(1)[OF l rt] .
  have ne1: "?rows1 \<noteq> []" using load_refs(2)[OF l] by simp
  have refs1: "map (ref \<circ> data) ?rows1 = [0..<length ?rows1]"
    using load_refs(1)[OF l] by (simp add: comp_def mark_deleted_simps)
  have rt1: "\<forall>r \<in> set ?rows1. round_trips P S (fields (data r))"
    using rt by (simp add: mark_deleted_simps)
  from run_written[OF ne1 refs1 rt1 ins, of ftf] obtain rows' where
    r: "Database_run P S ftf (Some (concat (map (row_line S) ?rows1))) ops
          = Inr (Some (concat (map (row_line S) rows')))"
    and l': "Database_load P (Some (concat (map (row_line S) rows'))) = Inr rows'"
    and len': "length ?rows1 \<le> length rows'"
    and keep': "\<forall>i < length ?rows1. data (rows' ! i) = data (?rows1 ! i)
                  \<and> (exists (rows' ! i) \<longrightarrow> exists (?rows1 ! i))"
    by blast
  have "Database_run P S ftf file (Delete q # ops) = Inr (Some (concat (map (row_line S) rows')))"
    using d r by simp
  moreover have "length rows \<le> length rows'" using len' by simp
  moreover have "\<forall>i < length rows. data (rows' ! i) = data (rows ! i)
                  \<and> (exists (rows' ! i) \<longrightarrow>
                       exists (rows ! i) \<and> data (rows ! i) \<notin> set ?D)"
    using keep' by (simp add: mark_deleted_simps)
  ultimately show ?thesis using l' by blast
qed

lemma nth_refs:
  assumes "map (ref \<circ> data) rows = [0..<length rows]" and "i < length rows"
  shows "ref (data (rows ! i)) = i"
proof -
  have "map (ref \<circ> data) rows ! i = [0..<length rows] ! i" using assms(1) by simp
  then show ?thesis using assms(2) by simp
qed

lemma load_written:
  assumes ne: "rows \<noteq> []"
      and rb: "\<forall>r \<in> set rows. reads_back P S (fields (data r))"
  shows "\<exists>rows'. Database_load P (Some (concat (map (row_line S) rows))) = Inr rows'
           \<and> length rows' = length rows
           \<and> (\<forall>k < length rows.
                 rows' ! k = Row (exists (rows ! k))
                                 (Obj k (the (P (S (fields (data (rows ! k))))))))"
proof -
  let ?ls = "map (line_of S) rows"
  have ls: "split_str LF (trim (concat (map (row_line S) rows))) = ?ls"
    using trim_log[OF ne rb] butlast_log[OF ne rb] by simp
  have sl: "slice1 (line_of S r) = S (fields (data r))"
    and st: "startsWith (line_of S r) (CHR ''E'') = exists r" for r
    by (simp_all add: line_of_def slice1_def startsWith_def)
  have "\<forall>l \<in> set ?ls. P (slice1 l) \<noteq> None"
    using rb by (auto simp: sl reads_back_def)
  with load_rows_fails[of P 0 ?ls] obtain rows' where r: "load_rows P 0 ?ls = Inr rows'"
    by (cases "load_rows P 0 ?ls") auto
  have "Database_load P (Some (concat (map (row_line S) rows))) = Inr rows'"
    using r by (simp add: Database_load_def ls)
  moreover have "length rows' = length rows"
    using load_rows_length[OF r] by simp
  moreover have "\<forall>k < length rows.
                 rows' ! k = Row (exists (rows ! k))
                                 (Obj k (the (P (S (fields (data (rows ! k)))))))"
    using load_rows_nth[OF r] by (simp add: sl st)
  ultimately show ?thesis by blast
qed

subsection \<open>The sample store\<close>

lemma sample_load:
  \<open>Database_load JSON_parse_sample (Some (''E{"a":1}'' @ [LF] @ ''E{}'' @ [LF]))
     = Inr [Row True (Obj 0 [(''a'', JNum 1)]), Row True (Obj 1 [])]\<close>
  by (simp add: Database_load_def sample_defs trim_def is_space_def LF_def slice1_def
      startsWith_def)

lemma sample_round_trips:
  "round_trips JSON_parse_sample JSON_stringify_sample []"
  "round_trips JSON_parse_sample JSON_stringify_sample [(''a'', JNum 1)]"
  "round_trips JSON_parse_sample JSON_stringify_sample [(''a'', JNum 1), (''b'', JNum 2)]"
  by (simp_all add: round_trips_def sample_defs is_space_def LF_def)

section \<open>The claims\<close>

text \<open>
  C1 (defect of the code). The claim: sort is stable and multi-key, and a tie on one key
  falls through to the next key. The comparator of \<open>find\<close> answers 1 times the
  direction for two equal numbers, never 0, so a tie on a numeric key decides the pair
  and the next key is not consulted. For the keys \<open>{a: 1, b: 1}\<close> and two records with
  equal \<open>a\<close>, the comparator answers 1 whichever record comes first; the sort leaves
  \<open>b = 2\<close> before \<open>b = 1\<close>. For the key \<open>{a: -1}\<close> and two records with equal \<open>a\<close>,
  the comparator answers -1 and the sort exchanges them.
\<close>

theorem numeric_tie_decides:
  \<open>comparator lc [(''a'', Some 1), (''b'', Some 1)]
      (Obj 1 [(''a'', JNum 1), (''b'', JNum 1)]) (Obj 0 [(''a'', JNum 1), (''b'', JNum 2)]) = 1
   \<and> comparator lc [(''a'', Some 1), (''b'', Some 1)]
      (Obj 0 [(''a'', JNum 1), (''b'', JNum 2)]) (Obj 1 [(''a'', JNum 1), (''b'', JNum 1)]) = 1
   \<and> Database_find JSON_parse_sample lc ftf
        (Some (''E{"a":1,"b":2}'' @ [LF] @ ''E{"a":1,"b":1}'' @ [LF])) (Field [])
        (Some (Options None (Some [(''a'', Some 1), (''b'', Some 1)])))
       = Inr [Obj 0 [(''a'', JNum 1), (''b'', JNum 2)], Obj 1 [(''a'', JNum 1), (''b'', JNum 1)]]
   \<and> Database_find JSON_parse_sample lc ftf
        (Some (''E{"a":1,"b":1}'' @ [LF] @ ''E{"a":1,"b":2}'' @ [LF])) (Field [])
        (Some (Options None (Some [(''a'', Some (- 1))])))
       = Inr [Obj 1 [(''a'', JNum 1), (''b'', JNum 2)], Obj 0 [(''a'', JNum 1), (''b'', JNum 1)]]\<close>
proof -
  have c1: \<open>comparator lc [(''a'', Some 1), (''b'', Some 1)]
      (Obj i [(''a'', JNum 1), (''b'', JNum 1)]) (Obj j [(''a'', JNum 1), (''b'', JNum 2)]) = 1\<close> for i j
    by (simp add: comparator_def compare_key_def get_def)
  have c2: \<open>comparator lc [(''a'', Some 1), (''b'', Some 1)]
      (Obj i [(''a'', JNum 1), (''b'', JNum 2)]) (Obj j [(''a'', JNum 1), (''b'', JNum 1)]) = 1\<close> for i j
    by (simp add: comparator_def compare_key_def get_def)
  have c3: \<open>comparator lc [(''a'', Some (- 1))]
      (Obj i [(''a'', JNum 1), (''b'', JNum 2)]) (Obj j [(''a'', JNum 1), (''b'', JNum 1)]) = - 1\<close> for i j
    by (simp add: comparator_def compare_key_def get_def)
  have l1: \<open>Database_load JSON_parse_sample (Some (''E{"a":1,"b":2}'' @ [LF] @ ''E{"a":1,"b":1}'' @ [LF]))
      = Inr [Row True (Obj 0 [(''a'', JNum 1), (''b'', JNum 2)]), Row True (Obj 1 [(''a'', JNum 1), (''b'', JNum 1)])]\<close>
    by (simp add: Database_load_def sample_defs trim_def is_space_def LF_def slice1_def startsWith_def)
  have l2: \<open>Database_load JSON_parse_sample (Some (''E{"a":1,"b":1}'' @ [LF] @ ''E{"a":1,"b":2}'' @ [LF]))
      = Inr [Row True (Obj 0 [(''a'', JNum 1), (''b'', JNum 1)]), Row True (Obj 1 [(''a'', JNum 1), (''b'', JNum 2)])]\<close>
    by (simp add: Database_load_def sample_defs trim_def is_space_def LF_def slice1_def startsWith_def)
  have f1: \<open>Database_find JSON_parse_sample lc ftf
        (Some (''E{"a":1,"b":2}'' @ [LF] @ ''E{"a":1,"b":1}'' @ [LF])) (Field [])
        (Some (Options None (Some [(''a'', Some 1), (''b'', Some 1)])))
       = Inr [Obj 0 [(''a'', JNum 1), (''b'', JNum 2)], Obj 1 [(''a'', JNum 1), (''b'', JNum 1)]]\<close>
    unfolding Database_find_def l1 by (simp add: existingRecords_def Array_sort_def c1)
  have f2: \<open>Database_find JSON_parse_sample lc ftf
        (Some (''E{"a":1,"b":1}'' @ [LF] @ ''E{"a":1,"b":2}'' @ [LF])) (Field [])
        (Some (Options None (Some [(''a'', Some (- 1))])))
       = Inr [Obj 1 [(''a'', JNum 1), (''b'', JNum 2)], Obj 0 [(''a'', JNum 1), (''b'', JNum 1)]]\<close>
    unfolding Database_find_def l2 by (simp add: existingRecords_def Array_sort_def c3)
  from c1 c2 f1 f2 show ?thesis by blast
qed

text \<open>
  C2 (fails as stated). The claim: \<open>load\<close> fails whenever a line has a first character
  other than E or D. A file whose only line is \<open>X{"a":1}\<close> loads without an error, as
  one dead row.
\<close>

theorem load_accepts_unknown_marker:
  \<open>\<not> startsWith ''X{"a":1}'' (CHR ''E'') \<and> \<not> startsWith ''X{"a":1}'' (CHR ''D'')
   \<and> Database_load JSON_parse_sample (Some (''X{"a":1}'' @ [LF]))
       = Inr [Row False (Obj 0 [(''a'', JNum 1)])]\<close>
  by (simp add: Database_load_def sample_defs trim_def is_space_def LF_def slice1_def startsWith_def)

text \<open>
  C2 (amended). \<open>load\<close> fails, with the \<open>SyntaxError\<close> of \<open>JSON.parse\<close>, exactly when
  the text after the first character of some line of the trimmed contents does not
  decode. When every line decodes, \<open>load\<close> returns one row per line, in order; the row
  is live when the line starts with E and dead for every other first character.
\<close>

theorem load_fails_on_bad_payload_only:
  "(Database_load P (Some contents) = Inl SyntaxError
      \<longleftrightarrow> (\<exists>l \<in> set (split_str LF (trim contents)). P (slice1 l) = None))
   \<and> ((\<forall>l \<in> set (split_str LF (trim contents)). P (slice1 l) \<noteq> None) \<longrightarrow>
        (\<exists>rows. Database_load P (Some contents) = Inr rows
           \<and> length rows = length (split_str LF (trim contents))
           \<and> (\<forall>k < length rows.
                 rows ! k = Row (startsWith (split_str LF (trim contents) ! k) (CHR ''E''))
                                (Obj k (the (P (slice1 (split_str LF (trim contents) ! k))))))))"
proof -
  let ?ls = "split_str LF (trim contents)"
  have l: "Database_load P (Some contents) = load_rows P 0 ?ls"
    by (simp add: Database_load_def)
  have a: "load_rows P 0 ?ls = Inl SyntaxError \<longleftrightarrow> (\<exists>l \<in> set ?ls. P (slice1 l) = None)"
    using load_rows_fails[of P 0 ?ls] load_rows_error[of P 0 ?ls] by blast
  have b: "\<exists>rows. load_rows P 0 ?ls = Inr rows \<and> length rows = length ?ls
             \<and> (\<forall>k < length rows. rows ! k
                  = Row (startsWith (?ls ! k) (CHR ''E'')) (Obj k (the (P (slice1 (?ls ! k))))))"
    if ok: "\<forall>l \<in> set ?ls. P (slice1 l) \<noteq> None"
  proof -
    from ok load_rows_fails[of P 0 ?ls] obtain rows where r: "load_rows P 0 ?ls = Inr rows"
      by (cases "load_rows P 0 ?ls") auto
    from load_rows_length[OF r] load_rows_nth[OF r] r show ?thesis by simp
  qed
  show ?thesis unfolding l using a b by blast
qed

theorem load_fails_on_bad_payload_only_witness:
  \<open>Database_load JSON_parse_sample (Some (''E{}'' @ [LF] @ ''Doops'' @ [LF])) = Inl SyntaxError
   \<and> (\<exists>l \<in> set (split_str LF (trim (''E{}'' @ [LF] @ ''Doops'' @ [LF]))).
         JSON_parse_sample (slice1 l) = None)
   \<and> (\<exists>rows. Database_load JSON_parse_sample
                  (Some (''E{"a":1}'' @ [LF] @ ''D{}'' @ [LF] @ ''{{}'' @ [LF])) = Inr rows
         \<and> length rows = 3
         \<and> rows ! 2 = Row False (Obj 2 []))\<close>
proof -
  have bad: \<open>\<exists>l \<in> set (split_str LF (trim (''E{}'' @ [LF] @ ''Doops'' @ [LF]))).
         JSON_parse_sample (slice1 l) = None\<close>
    by (simp add: sample_defs trim_def is_space_def LF_def slice1_def)
  have lines: \<open>split_str LF (trim (''E{"a":1}'' @ [LF] @ ''D{}'' @ [LF] @ ''{{}'' @ [LF]))
         = [''E{"a":1}'', ''D{}'', ''{{}'']\<close>
    by (simp add: trim_def is_space_def LF_def)
  have good: \<open>\<forall>l \<in> set (split_str LF (trim (''E{"a":1}'' @ [LF] @ ''D{}'' @ [LF] @ ''{{}'' @ [LF]))).
         JSON_parse_sample (slice1 l) \<noteq> None\<close>
    unfolding lines by (simp add: sample_defs slice1_def)
  have third: \<open>Row (startsWith ([''E{"a":1}'', ''D{}'', ''{{}''] ! 2) (CHR ''E''))
                  (Obj 2 (the (JSON_parse_sample (slice1 ([''E{"a":1}'', ''D{}'', ''{{}''] ! 2)))))
               = Row False (Obj 2 [])\<close>
    by (simp add: sample_defs slice1_def startsWith_def)
  from load_fails_on_bad_payload_only[of JSON_parse_sample
        \<open>''E{"a":1}'' @ [LF] @ ''D{}'' @ [LF] @ ''{{}'' @ [LF]\<close>] good
  obtain rows where r: \<open>Database_load JSON_parse_sample
        (Some (''E{"a":1}'' @ [LF] @ ''D{}'' @ [LF] @ ''{{}'' @ [LF])) = Inr rows\<close>
    and n: \<open>length rows = length (split_str LF (trim (''E{"a":1}'' @ [LF] @ ''D{}'' @ [LF] @ ''{{}'' @ [LF])))\<close>
    and k: \<open>\<forall>k < length rows. rows ! k
        = Row (startsWith (split_str LF (trim (''E{"a":1}'' @ [LF] @ ''D{}'' @ [LF] @ ''{{}'' @ [LF])) ! k) (CHR ''E''))
              (Obj k (the (JSON_parse_sample (slice1
                 (split_str LF (trim (''E{"a":1}'' @ [LF] @ ''D{}'' @ [LF] @ ''{{}'' @ [LF])) ! k)))))\<close>
    by blast
  from n have n3: "length rows = 3" unfolding lines by simp
  from k n3 have "rows ! 2 = Row False (Obj 2 [])" unfolding lines third[symmetric] by simp
  with r n3 bad
    load_fails_on_bad_payload_only[of JSON_parse_sample \<open>''E{}'' @ [LF] @ ''Doops'' @ [LF]\<close>]
  show ?thesis by blast
qed

text \<open>
  C3 (fails as stated). The claim: after \<open>insert(r)\<close>, \<open>find({})\<close> includes \<open>r\<close> exactly
  once, for every store state. On a store that already holds a live record with the
  content of \<open>r\<close>, the result holds that content twice.
\<close>

theorem insert_equal_record_twice:
  \<open>Database_find JSON_parse_sample no_collation []
      (Database_insert JSON_stringify_sample (Some (''E{"a":1}'' @ [LF])) [(''a'', JNum 1)])
      (Field []) None
     = Inr [Obj 0 [(''a'', JNum 1)], Obj 1 [(''a'', JNum 1)]]
   \<and> count_list (map fields [Obj 0 [(''a'', JNum 1)], Obj 1 [(''a'', JNum 1)]]) [(''a'', JNum 1)] = 2\<close>
  by (simp add: Database_find_def Database_insert_def Database_load_def sample_defs trim_def
      is_space_def LF_def slice1_def startsWith_def existingRecords_def)

text \<open>
  C3 (amended). Let the file be absent, or consist of the lines of \<open>rows\<close> as \<open>delete\<close>
  and \<open>insert\<close> write them, and let the records of the file and \<open>r\<close> survive the
  JSON round trip. Then \<open>insert(r)\<close> followed by \<open>find({})\<close> returns the live records
  of the file, in order, followed by \<open>r\<close> with all its fields. The content of \<open>r\<close>
  occurs once more than among the live records before, and exactly one record of the
  result comes from the new line.
\<close>

theorem insert_then_find_all:
  assumes wf: "file = Some (concat (map (row_line S) rows)) \<or> (file = None \<and> rows = [])"
      and refs: "map (ref \<circ> data) rows = [0..<length rows]"
      and rt: "\<forall>x \<in> set rows. round_trips P S (fields (data x))"
      and rtr: "round_trips P S r"
  shows "Database_find P lc ftf (Database_insert S file r) (Field []) None
           = Inr (existingRecords rows @ [Obj (length rows) r])
         \<and> count_list (map fields (existingRecords rows @ [Obj (length rows) r])) r
           = Suc (count_list (map fields (existingRecords rows)) r)
         \<and> count_list (map ref (existingRecords rows @ [Obj (length rows) r])) (length rows) = 1"
proof -
  have i: "Database_insert S file r = Database_insert S (Some (concat (map (row_line S) rows))) r"
    using wf by (auto simp: insert_absent)
  have l: "Database_load P (Database_insert S file r) = Inr (rows @ [Row True (Obj (length rows) r)])"
    unfolding i using rt refs rtr by (rule insert_appends)
  have f: "Database_find P lc ftf (Database_insert S file r) (Field []) None
           = Inr (existingRecords rows @ [Obj (length rows) r])"
    by (simp add: Database_find_def l existingRecords_def)
  have "set (map (ref \<circ> data) rows) = {0..<length rows}"
    unfolding refs by simp
  then have "length rows \<notin> ref ` set (existingRecords rows)"
    by (auto simp: existingRecords_def)
  then have c: "count_list (map ref (existingRecords rows)) (length rows) = 0"
    by (simp add: count_list_0_iff)
  show ?thesis using f c by simp
qed

theorem insert_then_find_all_witness:
  \<open>Database_find JSON_parse_sample no_collation []
      (Database_insert JSON_stringify_sample (Some (''E{"a":1}'' @ [LF] @ ''D{}'' @ [LF]))
         [(''a'', JNum 1), (''b'', JNum 2)])
      (Field []) None
     = Inr [Obj 0 [(''a'', JNum 1)], Obj 2 [(''a'', JNum 1), (''b'', JNum 2)]]\<close>
proof -
  have t: \<open>''E{"a":1}'' @ [LF] @ ''D{}'' @ [LF]
      = concat (map (row_line JSON_stringify_sample)
          [Row True (Obj 0 [(''a'', JNum 1)]), Row False (Obj 1 [])])\<close>
    by (simp add: row_line_def sample_defs)
  have wf: \<open>Some (''E{"a":1}'' @ [LF] @ ''D{}'' @ [LF])
      = Some (concat (map (row_line JSON_stringify_sample)
          [Row True (Obj 0 [(''a'', JNum 1)]), Row False (Obj 1 [])]))
      \<or> (Some (''E{"a":1}'' @ [LF] @ ''D{}'' @ [LF]) = None
          \<and> [Row True (Obj 0 [(''a'', JNum 1)]), Row False (Obj 1 [])] = [])\<close>
    using t by simp
  have refs: "map (ref \<circ> data) [Row True (Obj 0 [(''a'', JNum 1)]), Row False (Obj 1 [])]
      = [0..<length [Row True (Obj 0 [(''a'', JNum 1)]), Row False (Obj 1 [])]]"
    by (simp add: upt_rec)
  have rt: "\<forall>r \<in> set [Row True (Obj 0 [(''a'', JNum 1)]), Row False (Obj 1 [])].
              round_trips JSON_parse_sample JSON_stringify_sample (fields (data r))"
    by (simp add: sample_round_trips)
  from insert_then_find_all[OF wf refs rt sample_round_trips(3), of no_collation "[]"]
  show ?thesis
    by (simp add: existingRecords_def)
qed

text \<open>
  C4. When \<open>delete(q)\<close> matches the record \<open>r\<close>, then after the delete and after any
  further calls of \<open>insert\<close> and \<open>delete\<close>, the file still holds the row of \<open>r\<close>, now
  dead, and every \<open>find\<close>, whatever its query and options, returns no record that
  comes from that row.
\<close>

theorem deleted_record_is_excluded:
  assumes l: "Database_load P file = Inr rows"
      and rt: "\<forall>x \<in> set rows. round_trips P S (fields (data x))"
      and m: "r \<in> set (Database_find_rec ftf (existingRecords rows) q)"
      and ins: "\<forall>x. Insert x \<in> set ops \<longrightarrow> round_trips P S x"
  shows "\<exists>rows'. Database_run P S ftf file (Delete q # ops)
                    = Inr (Some (concat (map (row_line S) rows')))
           \<and> Database_load P (Some (concat (map (row_line S) rows'))) = Inr rows'
           \<and> Row False r \<in> set rows'
           \<and> (\<forall>q' opts. \<exists>res.
                 Database_find P lc ftf (Some (concat (map (row_line S) rows'))) q' opts = Inr res
                 \<and> ref r \<notin> ref ` set res)"
proof -
  let ?D = "Database_find_rec ftf (existingRecords rows) q"
  from run_after_delete[OF l rt ins, of ftf q] obtain rows' where
    run: "Database_run P S ftf file (Delete q # ops) = Inr (Some (concat (map (row_line S) rows')))"
    and l': "Database_load P (Some (concat (map (row_line S) rows'))) = Inr rows'"
    and len: "length rows \<le> length rows'"
    and keep: "\<forall>i < length rows. data (rows' ! i) = data (rows ! i)
              \<and> (exists (rows' ! i) \<longrightarrow> exists (rows ! i) \<and> data (rows ! i) \<notin> set ?D)"
    by blast
  have "r \<in> set (existingRecords rows)"
    using m find_rec_subset by blast
  then obtain i where i: "i < length rows" "data (rows ! i) = r"
    by (auto simp: existingRecords_def in_set_conv_nth)
  have ri: "ref r = i"
    using nth_refs[OF load_refs(1)[OF l] i(1)] i(2) by simp
  have i': "i < length rows'" using i(1) len by simp
  have d: "data (rows' ! i) = r" and e: "\<not> exists (rows' ! i)"
    using keep i m by auto
  then have "rows' ! i = Row False r"
    by (cases "rows' ! i") auto
  then have dead: "Row False r \<in> set rows'"
    using i' by (metis nth_mem)
  have notin: "ref r \<notin> ref ` set (existingRecords rows')"
  proof
    assume "ref r \<in> ref ` set (existingRecords rows')"
    then obtain j where j: "j < length rows'" "exists (rows' ! j)" "ref (data (rows' ! j)) = ref r"
      by (auto simp: existingRecords_def in_set_conv_nth)
    from nth_refs[OF load_refs(1)[OF l'] j(1)] j(3) ri have "j = i" by simp
    with j(2) e show False by simp
  qed
  have "\<exists>res. Database_find P lc ftf (Some (concat (map (row_line S) rows'))) q' opts = Inr res
           \<and> ref r \<notin> ref ` set res" for q' opts
    using find_refs[OF l', of lc ftf q' opts] notin by blast
  then show ?thesis
    using run l' dead by blast
qed

theorem deleted_record_is_excluded_witness:
  \<open>\<exists>rows'. Database_run JSON_parse_sample JSON_stringify_sample []
              (Some (''E{"a":1}'' @ [LF] @ ''E{}'' @ [LF]))
              [Delete (Field [(''a'', Eq (JNum 1))]), Insert [(''a'', JNum 1)]]
             = Inr (Some (concat (map (row_line JSON_stringify_sample) rows')))
         \<and> Row False (Obj 0 [(''a'', JNum 1)]) \<in> set rows'
         \<and> (\<exists>res. Database_find JSON_parse_sample no_collation []
                     (Some (concat (map (row_line JSON_stringify_sample) rows'))) (Field []) None
                    = Inr res
                  \<and> 0 \<notin> ref ` set res)\<close>
proof -
  have rt: "\<forall>r \<in> set [Row True (Obj 0 [(''a'', JNum 1)]), Row True (Obj 1 [])].
              round_trips JSON_parse_sample JSON_stringify_sample (fields (data r))"
    by (simp add: sample_round_trips)
  have m: "Obj 0 [(''a'', JNum 1)]
            \<in> set (Database_find_rec [] (existingRecords [Row True (Obj 0 [(''a'', JNum 1)]), Row True (Obj 1 [])])
                     (Field [(''a'', Eq (JNum 1))]))"
    by (simp add: existingRecords_def match_op_def get_def)
  have ins: "\<forall>x. Insert x \<in> set [Insert [(''a'', JNum 1)]]
               \<longrightarrow> round_trips JSON_parse_sample JSON_stringify_sample x"
    by (simp add: sample_round_trips)
  from deleted_record_is_excluded[OF sample_load rt m ins, of no_collation]
  obtain rows' where
    d: \<open>Database_run JSON_parse_sample JSON_stringify_sample []
              (Some (''E{"a":1}'' @ [LF] @ ''E{}'' @ [LF]))
              [Delete (Field [(''a'', Eq (JNum 1))]), Insert [(''a'', JNum 1)]]
             = Inr (Some (concat (map (row_line JSON_stringify_sample) rows')))\<close>
    and r: \<open>Row False (Obj 0 [(''a'', JNum 1)]) \<in> set rows'\<close>
    and f: \<open>\<forall>q' opts. \<exists>res. Database_find JSON_parse_sample no_collation []
                     (Some (concat (map (row_line JSON_stringify_sample) rows'))) q' opts = Inr res
                  \<and> ref (Obj 0 [(''a'', JNum 1)]) \<notin> ref ` set res\<close>
    by blast
  from f[rule_format, of "Field []" None] d r show ?thesis
    by auto
qed

text \<open>
  C5. For queries \<open>q1\<close>, \<open>q2\<close> over one store state: the result of \<open>$and\<close> is a subset
  of the intersection of the two results; the result of \<open>$or\<close> is their union as a set,
  without duplicates, the records of \<open>q1\<close> first and then the records that only \<open>q2\<close>
  found; the empty \<open>$and\<close> and the empty \<open>$or\<close> give the empty result.
\<close>

theorem combinators_set_algebra:
  assumes "Database_load P file = Inr rows"
  shows "\<exists>r1 r2 ra ro.
           Database_find P lc ftf file q1 None = Inr r1
         \<and> Database_find P lc ftf file q2 None = Inr r2
         \<and> Database_find P lc ftf file (And [q1, q2]) None = Inr ra
         \<and> Database_find P lc ftf file (Or [q1, q2]) None = Inr ro
         \<and> set ra \<subseteq> set r1 \<inter> set r2
         \<and> set ro = set r1 \<union> set r2
         \<and> distinct ro
         \<and> ro = r1 @ filter (\<lambda>x. x \<notin> set r1) r2
         \<and> Database_find P lc ftf file (And []) None = Inr []
         \<and> Database_find P lc ftf file (Or []) None = Inr []"
proof -
  let ?recs = "existingRecords rows"
  let ?r1 = "Database_find_rec ftf ?recs q1"
  let ?r2 = "Database_find_rec ftf ?recs q2"
  have d: "distinct ?recs"
    using load_refs(1)[OF assms] by (rule distinct_existingRecords)
  have d1: "distinct ?r1" and d2: "distinct ?r2"
    using d by (simp_all add: find_rec_distinct)
  have f: "Database_find P lc ftf file q None = Inr (Database_find_rec ftf ?recs q)" for q
    using assms by (simp add: Database_find_def)
  have a: "Database_find_rec ftf ?recs (And [q1, q2]) = intersect2 ?r1 ?r2"
    by (simp add: intersect_def)
  have "filter (\<lambda>y. y \<notin> set ?r1) ?r2 = from_set (filter (\<lambda>y. y \<notin> set ?r1) ?r2)"
    using d2 by (simp add: from_set_distinct_id)
  then have o: "Database_find_rec ftf ?recs (Or [q1, q2]) = ?r1 @ filter (\<lambda>x. x \<notin> set ?r1) ?r2"
    using d1 by (simp add: union_arrs_def from_set_append from_set_distinct_id)
  have e1: "Database_find_rec ftf ?recs (And []) = []"
    by (simp add: intersect_def)
  have e2: "Database_find_rec ftf ?recs (Or []) = []"
    by (simp add: union_arrs_def)
  have s: "set (intersect2 ?r1 ?r2) \<subseteq> set ?r1 \<inter> set ?r2"
    by (simp add: set_intersect2)
  have u: "set (?r1 @ filter (\<lambda>x. x \<notin> set ?r1) ?r2) = set ?r1 \<union> set ?r2"
    by auto
  have dd: "distinct (?r1 @ filter (\<lambda>x. x \<notin> set ?r1) ?r2)"
    using d1 d2 by auto
  show ?thesis
    unfolding f a o e1 e2 using s u dd by blast
qed

theorem combinators_set_algebra_witness:
  \<open>\<exists>r1 r2 ra ro.
       Database_find JSON_parse_sample no_collation []
         (Some (''E{"a":1,"b":1}'' @ [LF] @ ''E{"a":1,"b":2}'' @ [LF]))
         (Field [(''a'', Eq (JNum 1))]) None = Inr r1
     \<and> Database_find JSON_parse_sample no_collation []
         (Some (''E{"a":1,"b":1}'' @ [LF] @ ''E{"a":1,"b":2}'' @ [LF]))
         (Field [(''b'', Gt 1)]) None = Inr r2
     \<and> Database_find JSON_parse_sample no_collation []
         (Some (''E{"a":1,"b":1}'' @ [LF] @ ''E{"a":1,"b":2}'' @ [LF]))
         (And [Field [(''a'', Eq (JNum 1))], Field [(''b'', Gt 1)]]) None = Inr ra
     \<and> Database_find JSON_parse_sample no_collation []
         (Some (''E{"a":1,"b":1}'' @ [LF] @ ''E{"a":1,"b":2}'' @ [LF]))
         (Or [Field [(''a'', Eq (JNum 1))], Field [(''b'', Gt 1)]]) None = Inr ro
     \<and> set ra \<subseteq> set r1 \<inter> set r2
     \<and> set ro = set r1 \<union> set r2
     \<and> distinct ro
     \<and> ro = r1 @ filter (\<lambda>x. x \<notin> set r1) r2\<close>
proof -
  have l: \<open>Database_load JSON_parse_sample
              (Some (''E{"a":1,"b":1}'' @ [LF] @ ''E{"a":1,"b":2}'' @ [LF]))
     = Inr [Row True (Obj 0 [(''a'', JNum 1), (''b'', JNum 1)]),
            Row True (Obj 1 [(''a'', JNum 1), (''b'', JNum 2)])]\<close>
    by (simp add: Database_load_def sample_defs trim_def is_space_def LF_def
        slice1_def startsWith_def)
  from combinators_set_algebra[OF l, of no_collation "[]"
      \<open>Field [(''a'', Eq (JNum 1))]\<close> \<open>Field [(''b'', Gt 1)]\<close>]
  show ?thesis
    by - (elim exE conjE, intro exI conjI, assumption+)
qed

text \<open>
  C6 (fails as stated). The claim: \<open>delete\<close> leaves the payload of every row unchanged.
  The file with the lines \<open>E{"a":1e400}\<close> and \<open>E{"a":1}\<close> loads, and the number of its
  first row is read as \<open>Infinity\<close>. \<open>delete({a: {$eq: 1}})\<close> does not match the first
  row and writes its line as \<open>E{"a":null}\<close>, which loads as another record.
\<close>

theorem delete_rewrites_overflowing_number:
  \<open>Database_load JSON_parse_overflow (Some (''E{"a":1e400}'' @ [LF] @ ''E{"a":1}'' @ [LF]))
     = Inr [Row True (Obj 0 [(''a'', JNum Infinity)]), Row True (Obj 1 [(''a'', JNum 1)])]
   \<and> Database_delete JSON_parse_overflow JSON_stringify_overflow []
        (Some (''E{"a":1e400}'' @ [LF] @ ''E{"a":1}'' @ [LF])) (Field [(''a'', Eq (JNum 1))])
     = Inr (Some (''E{"a":null}'' @ [LF] @ ''D{"a":1}'' @ [LF]))
   \<and> Database_load JSON_parse_overflow (Some (''E{"a":null}'' @ [LF] @ ''D{"a":1}'' @ [LF]))
     = Inr [Row True (Obj 0 [(''a'', JNull)]), Row False (Obj 1 [(''a'', JNum 1)])]\<close>
proof -
  have l: \<open>Database_load JSON_parse_overflow (Some (''E{"a":1e400}'' @ [LF] @ ''E{"a":1}'' @ [LF]))
     = Inr [Row True (Obj 0 [(''a'', JNum Infinity)]), Row True (Obj 1 [(''a'', JNum 1)])]\<close>
    by (simp add: Database_load_def JSON_parse_overflow_def trim_def is_space_def LF_def
        slice1_def startsWith_def)
  have ne: "Infinity \<noteq> 1" by (simp add: Infinity_def)
  have d: \<open>Database_delete JSON_parse_overflow JSON_stringify_overflow []
        (Some (''E{"a":1e400}'' @ [LF] @ ''E{"a":1}'' @ [LF])) (Field [(''a'', Eq (JNum 1))])
     = Inr (Some (''E{"a":null}'' @ [LF] @ ''D{"a":1}'' @ [LF]))\<close>
    unfolding Database_delete_def l using ne
    by (simp add: existingRecords_def match_op_def get_def mark_deleted_def row_line_def
        JSON_stringify_overflow_def)
  have l': \<open>Database_load JSON_parse_overflow (Some (''E{"a":null}'' @ [LF] @ ''D{"a":1}'' @ [LF]))
     = Inr [Row True (Obj 0 [(''a'', JNull)]), Row False (Obj 1 [(''a'', JNum 1)])]\<close>
    by (simp add: Database_load_def JSON_parse_overflow_def trim_def is_space_def LF_def
        slice1_def startsWith_def)
  from l d l' show ?thesis by (intro conjI)
qed

text \<open>
  C6 (amended). \<open>delete(q)\<close> rewrites the file with one line for every row of the file
  it loaded, in the same order: the marker of the line, and then \<open>JSON.stringify\<close> of the
  record of the row. Loading the rewritten file gives as many rows; the row at position
  \<open>i\<close> is live exactly when it was live before and the query did not match it, and its
  record is the one \<open>JSON.parse\<close> reads back from the text \<open>JSON.stringify\<close> wrote. That
  is the record of the row before whenever the record survives the JSON round trip.
\<close>

theorem delete_keeps_every_row:
  assumes "Database_load P file = Inr rows"
      and "\<forall>r \<in> set rows. reads_back P S (fields (data r))"
  shows "\<exists>rows'. Database_delete P S ftf file q
             = Inr (Some (concat (map (row_line S)
                 (map (mark_deleted (Database_find_rec ftf (existingRecords rows) q)) rows))))
           \<and> Database_load P (Some (concat (map (row_line S)
                 (map (mark_deleted (Database_find_rec ftf (existingRecords rows) q)) rows))))
             = Inr rows'
           \<and> length rows' = length rows
           \<and> (\<forall>i < length rows.
                 exists (rows' ! i)
                   = (exists (rows ! i)
                      \<and> data (rows ! i) \<notin> set (Database_find_rec ftf (existingRecords rows) q))
                 \<and> ref (data (rows' ! i)) = ref (data (rows ! i))
                 \<and> P (S (fields (data (rows ! i)))) = Some (fields (data (rows' ! i)))
                 \<and> (round_trips P S (fields (data (rows ! i)))
                      \<longrightarrow> data (rows' ! i) = data (rows ! i)))"
proof -
  let ?D = "Database_find_rec ftf (existingRecords rows) q"
  let ?new = "map (mark_deleted ?D) rows"
  have d: "Database_delete P S ftf file q = Inr (Some (concat (map (row_line S) ?new)))"
    using assms(1) by (simp add: Database_delete_def)
  have ne: "?new \<noteq> []" using load_refs(2)[OF assms(1)] by simp
  have rb: "\<forall>r \<in> set ?new. reads_back P S (fields (data r))"
    using assms(2) by (simp add: mark_deleted_simps)
  from load_written[OF ne rb] obtain rows' where
    l': "Database_load P (Some (concat (map (row_line S) ?new))) = Inr rows'"
    and len: "length rows' = length rows"
    and nth: "\<forall>k < length ?new.
                 rows' ! k = Row (exists (?new ! k))
                                 (Obj k (the (P (S (fields (data (?new ! k)))))))"
    by auto
  have "exists (rows' ! i) = (exists (rows ! i) \<and> data (rows ! i) \<notin> set ?D)
        \<and> ref (data (rows' ! i)) = ref (data (rows ! i))
        \<and> P (S (fields (data (rows ! i)))) = Some (fields (data (rows' ! i)))
        \<and> (round_trips P S (fields (data (rows ! i))) \<longrightarrow> data (rows' ! i) = data (rows ! i))"
    if i: "i < length rows" for i
  proof -
    let ?d = "fields (data (rows ! i))"
    have r': "rows' ! i = Row (exists (rows ! i) \<and> data (rows ! i) \<notin> set ?D)
                              (Obj i (the (P (S ?d))))"
      using nth i by (simp add: mark_deleted_simps)
    have ri: "ref (data (rows ! i)) = i"
      using nth_refs[OF load_refs(1)[OF assms(1)] i] .
    have "reads_back P S ?d" using assms(2) i by simp
    then obtain d' where p: "P (S ?d) = Some d'" by (auto simp: reads_back_def)
    have same: "data (rows' ! i) = data (rows ! i)" if "round_trips P S ?d"
    proof -
      from that p have "d' = ?d" by (simp add: round_trips_def)
      then have "data (rows' ! i) = Obj i ?d" using r' p by simp
      also have "\<dots> = data (rows ! i)" using ri by (cases "data (rows ! i)") auto
      finally show ?thesis .
    qed
    show ?thesis using r' ri p same by simp
  qed
  with d l' len show ?thesis by blast
qed

theorem delete_keeps_every_row_witness:
  \<open>\<exists>rows'. Database_delete JSON_parse_overflow JSON_stringify_overflow []
              (Some (''E{"a":1e400}'' @ [LF] @ ''E{"a":1}'' @ [LF])) (Field [(''a'', Eq (JNum 1))])
             = Inr (Some (''E{"a":null}'' @ [LF] @ ''D{"a":1}'' @ [LF]))
         \<and> Database_load JSON_parse_overflow (Some (''E{"a":null}'' @ [LF] @ ''D{"a":1}'' @ [LF]))
             = Inr rows'
         \<and> length rows' = 2
         \<and> exists (rows' ! 0) \<and> \<not> exists (rows' ! 1)
         \<and> fields (data (rows' ! 0)) = [(''a'', JNull)]
         \<and> data (rows' ! 1) = Obj 1 [(''a'', JNum 1)]\<close>
proof -
  let ?rows = "[Row True (Obj 0 [(''a'', JNum Infinity)]), Row True (Obj 1 [(''a'', JNum 1)])]"
  have l: \<open>Database_load JSON_parse_overflow (Some (''E{"a":1e400}'' @ [LF] @ ''E{"a":1}'' @ [LF]))
     = Inr ?rows\<close>
    by (simp add: Database_load_def JSON_parse_overflow_def trim_def is_space_def LF_def
        slice1_def startsWith_def)
  have ne: "Infinity \<noteq> 1" by (simp add: Infinity_def)
  have rb0: "reads_back JSON_parse_overflow JSON_stringify_overflow [(''a'', JNum Infinity)]"
    using ne by (simp add: reads_back_def JSON_parse_overflow_def JSON_stringify_overflow_def
        is_space_def LF_def)
  have rt1: "round_trips JSON_parse_overflow JSON_stringify_overflow [(''a'', JNum 1)]"
    by (simp add: round_trips_def JSON_parse_overflow_def JSON_stringify_overflow_def
        is_space_def LF_def)
  have rb: "\<forall>r \<in> set ?rows. reads_back JSON_parse_overflow JSON_stringify_overflow (fields (data r))"
    using rb0 rt1 by (simp add: round_trips_reads_back)
  have D: "Database_find_rec [] (existingRecords ?rows) (Field [(''a'', Eq (JNum 1))])
             = [Obj 1 [(''a'', JNum 1)]]"
    using ne by (simp add: existingRecords_def match_op_def get_def)
  have t: \<open>concat (map (row_line JSON_stringify_overflow)
              (map (mark_deleted [Obj 1 [(''a'', JNum 1)]]) ?rows))
           = ''E{"a":null}'' @ [LF] @ ''D{"a":1}'' @ [LF]\<close>
    using ne by (simp add: mark_deleted_def row_line_def JSON_stringify_overflow_def)
  have p0: \<open>JSON_parse_overflow (JSON_stringify_overflow [(''a'', JNum Infinity)])
             = Some [(''a'', JNull)]\<close>
    using ne by (simp add: JSON_parse_overflow_def JSON_stringify_overflow_def)
  from delete_keeps_every_row[OF l rb, of "[]" "Field [(''a'', Eq (JNum 1))]"]
  obtain rows' where
    d: \<open>Database_delete JSON_parse_overflow JSON_stringify_overflow []
              (Some (''E{"a":1e400}'' @ [LF] @ ''E{"a":1}'' @ [LF])) (Field [(''a'', Eq (JNum 1))])
             = Inr (Some (''E{"a":null}'' @ [LF] @ ''D{"a":1}'' @ [LF]))\<close>
    and l': \<open>Database_load JSON_parse_overflow (Some (''E{"a":null}'' @ [LF] @ ''D{"a":1}'' @ [LF]))
             = Inr rows'\<close>
    and len: "length rows' = length ?rows"
    and k: "\<forall>i < length ?rows.
                 exists (rows' ! i)
                   = (exists (?rows ! i) \<and> data (?rows ! i) \<notin> set [Obj 1 [(''a'', JNum 1)]])
                 \<and> ref (data (rows' ! i)) = ref (data (?rows ! i))
                 \<and> JSON_parse_overflow (JSON_stringify_overflow (fields (data (?rows ! i))))
                     = Some (fields (data (rows' ! i)))
                 \<and> (round_trips JSON_parse_overflow JSON_stringify_overflow (fields (data (?rows ! i)))
                      \<longrightarrow> data (rows' ! i) = data (?rows ! i))"
    unfolding D t by blast
  from k[rule_format, of 0] p0 have a: "exists (rows' ! 0)" "fields (data (rows' ! 0)) = [(''a'', JNull)]"
    by simp_all
  from k[rule_format, of 1] rt1 have b: "\<not> exists (rows' ! 1)" "data (rows' ! 1) = Obj 1 [(''a'', JNum 1)]"
    by simp_all
  from d l' len a b show ?thesis by auto
qed

text \<open>
  C7. A field clause \<open>{$lt: n}\<close> matches a value exactly when the value is a number below
  \<open>n\<close>, and \<open>{$gt: n}\<close> exactly when it is a number above \<open>n\<close>; the value \<open>n\<close> itself
  matches neither. A value that is not a number does not match, and the matcher returns
  a list whatever the value is.
\<close>

theorem field_lt_gt:
  "(match_op (Lt n) v \<longleftrightarrow> (\<exists>x. v = JNum x \<and> x < n))
   \<and> (match_op (Gt n) v \<longleftrightarrow> (\<exists>x. v = JNum x \<and> n < x))
   \<and> \<not> match_op (Lt n) (JNum n) \<and> \<not> match_op (Gt n) (JNum n)
   \<and> Database_find_rec ftf records (Field [(key, Lt n)])
       = filter (\<lambda>record. \<exists>x. get (fields record) key = JNum x \<and> x < n) records
   \<and> Database_find_rec ftf records (Field [(key, Gt n)])
       = filter (\<lambda>record. \<exists>x. get (fields record) key = JNum x \<and> n < x) records"
proof -
  have lt: "match_op (Lt n) v \<longleftrightarrow> (\<exists>x. v = JNum x \<and> x < n)" for n v
    by (cases v) (simp_all add: match_op_def)
  have gt: "match_op (Gt n) v \<longleftrightarrow> (\<exists>x. v = JNum x \<and> n < x)" for n v
    by (cases v) (simp_all add: match_op_def)
  show ?thesis
    by (simp add: lt gt)
qed

text \<open>
  C8. A record matches \<open>{$text: s}\<close> exactly when some configured full-text field holds
  a string whose pieces, split at white space and lower-cased, contain the lower-cased
  \<open>s\<close>. For a non-empty \<open>s\<close> this is: some whole token of the string equals \<open>s\<close> up to
  case. A part of a token that is not itself a whole token does not match.
\<close>

theorem text_query_whole_token:
  "(r \<in> set (Database_find_rec ftf records (Text s)) \<longleftrightarrow>
      r \<in> set records
      \<and> (\<exists>key \<in> set ftf. \<exists>v. get (fields r) key = JStr v
            \<and> toLowerCase s \<in> set (map toLowerCase (split_ws v))))
   \<and> (s \<noteq> [] \<longrightarrow>
        (r \<in> set (Database_find_rec ftf records (Text s)) \<longleftrightarrow>
           r \<in> set records
           \<and> (\<exists>key \<in> set ftf. \<exists>v t. get (fields r) key = JStr v
                 \<and> whole_token t v \<and> toLowerCase t = toLowerCase s)))"
proof -
  have m: "match_text s r key \<longleftrightarrow>
             (\<exists>v. get (fields r) key = JStr v
                \<and> toLowerCase s \<in> set (map toLowerCase (split_ws v)))" for key
    by (cases "get (fields r) key") (simp_all add: match_text_def)
  have a: "r \<in> set (Database_find_rec ftf records (Text s)) \<longleftrightarrow>
      r \<in> set records
      \<and> (\<exists>key \<in> set ftf. \<exists>v. get (fields r) key = JStr v
            \<and> toLowerCase s \<in> set (map toLowerCase (split_ws v)))"
    by (simp add: list_ex_iff m)
  have b: "toLowerCase s \<in> set (map toLowerCase (split_ws v)) \<longleftrightarrow>
             (\<exists>t. whole_token t v \<and> toLowerCase t = toLowerCase s)" if "s \<noteq> []" for v
  proof
    assume "toLowerCase s \<in> set (map toLowerCase (split_ws v))"
    then obtain t where "t \<in> set (split_ws v)" "toLowerCase t = toLowerCase s" by auto
    then show "\<exists>t. whole_token t v \<and> toLowerCase t = toLowerCase s"
      using split_ws_whole by blast
  next
    assume "\<exists>t. whole_token t v \<and> toLowerCase t = toLowerCase s"
    then obtain t where t: "whole_token t v" "toLowerCase t = toLowerCase s" by blast
    from t(2) that have "t \<noteq> []" by (rule toLowerCase_Nil)
    with t(1) have "t \<in> set (split_ws v)" by (rule whole_split_ws)
    then have "toLowerCase t \<in> toLowerCase ` set (split_ws v)" by (rule imageI)
    then show "toLowerCase s \<in> set (map toLowerCase (split_ws v))" using t(2) by simp
  qed
  show ?thesis
    unfolding a using b by blast
qed

theorem text_query_whole_token_witness:
  "Obj 0 [(''bio'', JStr ''fast and curious'')]
     \<in> set (Database_find_rec [''bio''] [Obj 0 [(''bio'', JStr ''fast and curious'')]] (Text ''Fast''))
   \<and> Obj 0 [(''bio'', JStr ''fast and curious'')]
     \<notin> set (Database_find_rec [''bio''] [Obj 0 [(''bio'', JStr ''fast and curious'')]] (Text ''fas''))"
proof -
  let ?r = "Obj 0 [(''bio'', JStr ''fast and curious'')]"
  have g: "get (fields ?r) ''bio'' = JStr ''fast and curious''"
    by (simp add: get_def)
  have "''fast and curious'' = [] @ ''fast'' @ '' and curious''" by simp
  moreover have "\<forall>c \<in> set ''fast''. \<not> is_space c" by (simp add: is_space_def)
  moreover have "is_space (hd '' and curious'')" by (simp add: is_space_def)
  ultimately have w: "whole_token ''fast'' ''fast and curious''"
    unfolding whole_token_def by blast
  have lo: "toLowerCase ''fast'' = toLowerCase ''Fast''"
    by code_simp
  have ne: "''Fast'' \<noteq> []" by simp
  have mem: "?r \<in> set [?r]" by simp
  have "''bio'' \<in> set [''bio'']" by simp
  with g w lo
  have ex: "\<exists>key \<in> set [''bio'']. \<exists>v t. get (fields ?r) key = JStr v
              \<and> whole_token t v \<and> toLowerCase t = toLowerCase ''Fast''"
    by blast
  from text_query_whole_token[of ?r "[''bio'']" "[?r]" "''Fast''"]
  have "''Fast'' \<noteq> [] \<longrightarrow>
          (?r \<in> set (Database_find_rec [''bio''] [?r] (Text ''Fast'')) \<longleftrightarrow>
             ?r \<in> set [?r]
             \<and> (\<exists>key \<in> set [''bio'']. \<exists>v t. get (fields ?r) key = JStr v
                   \<and> whole_token t v \<and> toLowerCase t = toLowerCase ''Fast''))"
    by (rule conjunct2)
  then have yes: "?r \<in> set (Database_find_rec [''bio''] [?r] (Text ''Fast''))"
    using ne mem ex by blast
  have toks: "map toLowerCase (split_ws ''fast and curious'') = [''fast'', ''and'', ''curious'']"
    by code_simp
  have fas: "toLowerCase ''fas'' = ''fas''" by code_simp
  have nb: "\<not> (\<exists>key \<in> set [''bio'']. \<exists>v. get (fields ?r) key = JStr v
              \<and> toLowerCase ''fas'' \<in> set (map toLowerCase (split_ws v)))"
  proof
    assume "\<exists>key \<in> set [''bio'']. \<exists>v. get (fields ?r) key = JStr v
              \<and> toLowerCase ''fas'' \<in> set (map toLowerCase (split_ws v))"
    then obtain v where v: "get (fields ?r) ''bio'' = JStr v"
      and t: "toLowerCase ''fas'' \<in> set (map toLowerCase (split_ws v))"
      by auto
    from v g have "v = ''fast and curious''" by simp
    with t have "''fas'' \<in> set (map toLowerCase (split_ws ''fast and curious''))"
      unfolding fas by (simp del: split_ws.simps)
    then have "''fas'' \<in> set [''fast'', ''and'', ''curious'']"
      unfolding toks .
    then show False by simp
  qed
  from text_query_whole_token[of ?r "[''bio'']" "[?r]" "''fas''"]
  have "?r \<in> set (Database_find_rec [''bio''] [?r] (Text ''fas'')) \<longleftrightarrow>
          ?r \<in> set [?r]
          \<and> (\<exists>key \<in> set [''bio'']. \<exists>v. get (fields ?r) key = JStr v
                \<and> toLowerCase ''fas'' \<in> set (map toLowerCase (split_ws v)))"
    by (rule conjunct1)
  with nb have no: "?r \<notin> set (Database_find_rec [''bio''] [?r] (Text ''fas''))"
    by blast
  from yes no show ?thesis by (rule conjI)
qed

text \<open>
  C9. On a file that is empty or holds white space only, \<open>load\<close>, and with it \<open>find\<close>
  and \<open>delete\<close>, fails with the error of decoding the empty payload: the trimmed
  contents split into one empty line.
\<close>

theorem empty_file_fails:
  assumes "P [] = None" and "\<forall>c \<in> set contents. is_space c"
  shows "Database_load P (Some contents) = Inl SyntaxError
       \<and> Database_find P lc ftf (Some contents) q opts = Inl SyntaxError
       \<and> Database_delete P S ftf (Some contents) q = Inl SyntaxError"
proof -
  have "trim contents = []" using assms(2) by (rule trim_spaces)
  then have "Database_load P (Some contents) = Inl SyntaxError"
    using assms(1) by (simp add: Database_load_def slice1_def)
  then show ?thesis
    by (simp add: Database_find_def Database_delete_def)
qed

theorem empty_file_fails_witness:
  "Database_find JSON_parse_sample no_collation [] (Some [CHR 0x20, CHR 0x0A]) (Field []) None
     = Inl SyntaxError
   \<and> Database_delete JSON_parse_sample JSON_stringify_sample [] (Some []) (Field [])
     = Inl SyntaxError"
proof -
  have p: "JSON_parse_sample [] = None" by (simp add: sample_defs)
  have s: "\<forall>c \<in> set [CHR 0x20, CHR 0x0A]. is_space c" by (simp add: is_space_def)
  have e: "\<forall>c \<in> set ([]::string). is_space c" by simp
  show ?thesis
    using p s e
      empty_file_fails[where P = JSON_parse_sample and contents = "[CHR 0x20, CHR 0x0A]"
        and lc = no_collation and ftf = "[]" and q = "Field []" and opts = None]
      empty_file_fails[where P = JSON_parse_sample and contents = "[]"
        and S = JSON_stringify_sample and ftf = "[]" and q = "Field []"]
    by simp
qed

text \<open>
  C10. After \<open>delete(q)\<close> and any further calls of \<open>insert\<close> and \<open>delete\<close>, the file
  holds every row of the file \<open>delete(q)\<close> loaded, at its position and with its record,
  and every row that was dead then is dead.
\<close>

theorem tombstones_stay:
  assumes "Database_load P file = Inr rows"
      and "\<forall>r \<in> set rows. round_trips P S (fields (data r))"
      and "\<forall>x. Insert x \<in> set ops \<longrightarrow> round_trips P S x"
  shows "\<exists>rows'. Database_run P S ftf file (Delete q # ops)
                    = Inr (Some (concat (map (row_line S) rows')))
           \<and> Database_load P (Some (concat (map (row_line S) rows'))) = Inr rows'
           \<and> length rows \<le> length rows'
           \<and> (\<forall>i < length rows. data (rows' ! i) = data (rows ! i)
                  \<and> (\<not> exists (rows ! i) \<longrightarrow> \<not> exists (rows' ! i)))"
proof -
  from run_after_delete[OF assms, of ftf q] obtain rows' where
    r: "Database_run P S ftf file (Delete q # ops) = Inr (Some (concat (map (row_line S) rows')))"
       "Database_load P (Some (concat (map (row_line S) rows'))) = Inr rows'"
       "length rows \<le> length rows'"
    and k: "\<forall>i < length rows. data (rows' ! i) = data (rows ! i)
              \<and> (exists (rows' ! i) \<longrightarrow>
                   exists (rows ! i)
                   \<and> data (rows ! i) \<notin> set (Database_find_rec ftf (existingRecords rows) q))"
    by blast
  from k have "\<forall>i < length rows. data (rows' ! i) = data (rows ! i)
                  \<and> (\<not> exists (rows ! i) \<longrightarrow> \<not> exists (rows' ! i))"
    by blast
  with r show ?thesis by blast
qed

theorem tombstones_stay_witness:
  \<open>\<exists>rows'. Database_run JSON_parse_sample JSON_stringify_sample []
              (Some (''E{"a":1}'' @ [LF] @ ''D{}'' @ [LF]))
              [Delete (Field []), Insert [], Delete (Field [(''a'', Eq (JNum 1))])]
             = Inr (Some (concat (map (row_line JSON_stringify_sample) rows')))
         \<and> 2 \<le> length rows'
         \<and> data (rows' ! 1) = Obj 1 []
         \<and> \<not> exists (rows' ! 1)\<close>
proof -
  have l: \<open>Database_load JSON_parse_sample (Some (''E{"a":1}'' @ [LF] @ ''D{}'' @ [LF]))
     = Inr [Row True (Obj 0 [(''a'', JNum 1)]), Row False (Obj 1 [])]\<close>
    by (simp add: Database_load_def sample_defs trim_def is_space_def LF_def slice1_def
        startsWith_def)
  have rt: "\<forall>r \<in> set [Row True (Obj 0 [(''a'', JNum 1)]), Row False (Obj 1 [])].
              round_trips JSON_parse_sample JSON_stringify_sample (fields (data r))"
    by (simp add: sample_round_trips)
  have ins: "\<forall>x. Insert x \<in> set [Insert [], Delete (Field [(''a'', Eq (JNum 1))])]
               \<longrightarrow> round_trips JSON_parse_sample JSON_stringify_sample x"
    by (simp add: sample_round_trips)
  from tombstones_stay[OF l rt ins, of "[]" "Field []"]
  show ?thesis
    by (simp add: All_less_Suc numeral_2_eq_2)
      (elim exE conjE, intro exI conjI, assumption+)
qed

end
